theory Spec2Isabelle
  imports Main
begin

section \<open>The buffer manager of src/buffer.cpp\<close>

text \<open>
  A shallow embedding of class \<open>BufMgr\<close>. Every member function becomes a function from
  the state before the call to an outcome and the state after it; a C++ exception is the
  outcome \<open>Inl e\<close>, and the state paired with it is the state in which the exception
  leaves the function (the code has no roll-back, so mutations made before a
  \<open>throw\<close> stay).

  \<open>FrameId\<close> and \<open>PageId\<close> are unsigned 32-bit integers in the source. The only
  arithmetic on them is \<open>(clockHand + 1) % numBufs\<close> and \<open>++pinCount\<close>, both bounded by
  \<open>numBufs\<close>, so they are modelled as \<open>nat\<close> without wrap-around. Indexing an array out
  of range and calling a method through a null \<open>File*\<close> are undefined in C++; the model
  uses \<open>!\<close> and \<open>the\<close> there, and the theorems that depend on such an access assume the
  representation invariant under which it is in range.

  The pin count of a frame is a signed 32-bit \<open>int\<close>. \<open>readPage\<close> increments it on every
  hit, with no test, so the increment is modelled with the wrap-around of the
  two's-complement machine (\<open>wrap_int32\<close>): one more than \<open>2^31 - 1\<close> is \<open>- 2^31\<close>.
  \<open>unPinPage\<close> decrements a count only when it is positive, which cannot wrap.
\<close>

subsection \<open>Collaborators that the source only uses\<close>

type_synonym File = nat
  \<comment> \<open>the identity (address) of a \<open>File\<close> object; a \<open>File*\<close> is a \<open>File option\<close>,
      \<open>None\<close> being the null pointer\<close>
type_synonym PageId = nat
type_synonym FrameId = nat

text \<open>
  Modelled from the spec: the classes \<open>Page\<close> and \<open>File\<close> (section 6, "File
  collaborator contract"), which are not part of src. A page carries its number and its
  contents. A file object has a name and holds pages, each under its own number.
\<close>

record Page =
  page_number :: PageId
  data :: string

record FileObj =
  filename :: string
  pages :: "Page list"

text \<open>The calls that the buffer manager makes on file objects.\<close>

datatype file_call =
    ReadPageCall File PageId
  | WritePageCall File Page
  | AllocatePageCall File
  | DeletePageCall File PageId

text \<open>
  The exceptions. Their classes are declared outside src; the arguments are those of the
  \<open>throw\<close> statements of buffer.cpp. \<open>HashAlreadyPresentException\<close> and
  \<open>InvalidPageException\<close> are modelled from the spec: the error of inserting a key that
  the directory already has (section 3), and the failure of \<open>File::readPage\<close> (section 6).
\<close>

datatype exn =
    BufferExceededException
  | PageNotPinnedException string PageId FrameId
  | PagePinnedException string PageId FrameId
  | BadBufferException FrameId bool bool bool
  | HashNotFoundException
  | HashAlreadyPresentException
  | InvalidPageException

text \<open>
  Modelled from the spec: the frame descriptor \<open>BufDesc\<close> of buffer.h (section 3 and
  section 4.8), which is not part of src. The source compares \<open>pinCnt <= 0\<close>, so the
  pin count is a signed integer: a 32-bit \<open>int\<close>, held in the model as the \<open>int\<close> it
  denotes, between \<open>- 2^31\<close> and \<open>2^31 - 1\<close>.
\<close>

record BufDesc =
  file_ptr :: "File option"
  pageNo :: PageId
  frameNo :: FrameId
  pinCnt :: int
  dirty :: bool
  valid :: bool
  refbit :: bool

text \<open>
  The members of \<open>BufMgr\<close>, followed by the two pieces of the outside world that its
  member functions reach through \<open>File*\<close>: the file objects, and the sequence of calls
  made on them (oldest first).
\<close>

record BufMgr =
  numBufs :: nat
  bufDescTable :: "BufDesc list"
  bufPool :: "Page list"
  hashTable :: "(File option \<times> PageId) \<rightharpoonup> FrameId"
  clockHand :: FrameId
  files :: "File \<Rightarrow> FileObj"
  calls :: "file_call list"

type_synonym 'a outcome = "(exn + 'a) \<times> BufMgr"

text \<open>
  Modelled from the spec: the member functions of \<open>File\<close> (section 6). \<open>readPage\<close>
  returns the page with the number asked for and raises when the file has none;
  \<open>writePage\<close> persists a page under the number it carries; \<open>allocatePage\<close> returns a
  fresh, empty page with a newly assigned number (one more than the largest in the
  file); \<open>deletePage\<close> removes a page. Each of them is recorded in \<open>calls\<close>.
\<close>

definition File_readPage :: "File \<Rightarrow> PageId \<Rightarrow> BufMgr \<Rightarrow> Page outcome" where
  "File_readPage f p s =
     (let s' = s\<lparr>calls := calls s @ [ReadPageCall f p]\<rparr>
      in case find (\<lambda>pg. page_number pg = p) (pages (files s f)) of
           None \<Rightarrow> (Inl InvalidPageException, s')
         | Some pg \<Rightarrow> (Inr pg, s'))"

definition File_writePage :: "File \<Rightarrow> Page \<Rightarrow> BufMgr \<Rightarrow> BufMgr" where
  "File_writePage f pg s =
     s\<lparr>files := (files s)(f := (files s f)
          \<lparr>pages := pg # filter (\<lambda>q. page_number q \<noteq> page_number pg) (pages (files s f))\<rparr>),
       calls := calls s @ [WritePageCall f pg]\<rparr>"

definition fresh_page_number :: "Page list \<Rightarrow> PageId" where
  "fresh_page_number ps = Suc (fold max (map page_number ps) 0)"

definition File_allocatePage :: "File \<Rightarrow> BufMgr \<Rightarrow> Page \<times> BufMgr" where
  "File_allocatePage f s =
     (let pg = \<lparr>page_number = fresh_page_number (pages (files s f)), data = []\<rparr>
      in (pg, s\<lparr>files := (files s)(f := (files s f)\<lparr>pages := pages (files s f) @ [pg]\<rparr>),
                calls := calls s @ [AllocatePageCall f]\<rparr>))"

definition File_deletePage :: "File \<Rightarrow> PageId \<Rightarrow> BufMgr \<Rightarrow> BufMgr" where
  "File_deletePage f p s =
     s\<lparr>files := (files s)(f := (files s f)
          \<lparr>pages := filter (\<lambda>q. page_number q \<noteq> p) (pages (files s f))\<rparr>),
       calls := calls s @ [DeletePageCall f p]\<rparr>"

text \<open>
  Modelled from the spec: \<open>BufDesc::Clear\<close> and \<open>BufDesc::Set\<close> (section 4.8). The
  sentinel \<open>Page::INVALID_NUMBER\<close> is declared outside src and the spec does not give
  its value, so it is a parameter (\<open>INV\<close>) of every function that uses it.
\<close>

definition BufDesc_Clear :: "PageId \<Rightarrow> BufDesc \<Rightarrow> BufDesc" where
  "BufDesc_Clear INV d =
     d\<lparr>pinCnt := 0, file_ptr := None, pageNo := INV, dirty := False, refbit := False,
       valid := False\<rparr>"

definition BufDesc_Set :: "File \<Rightarrow> PageId \<Rightarrow> BufDesc \<Rightarrow> BufDesc" where
  "BufDesc_Set f p d =
     d\<lparr>file_ptr := Some f, pageNo := p, pinCnt := 1, dirty := False, valid := True,
       refbit := True\<rparr>"

text \<open>
  Modelled from the spec: the directory \<open>BufHashTbl\<close> (section 3, "Directory"), which
  is not part of src: a finite map from (file, page number) to frame number, whose
  lookup and removal of a missing key, and insertion of a present key, raise.
\<close>

definition BufHashTbl_lookup :: "File option \<times> PageId \<Rightarrow> BufMgr \<Rightarrow> exn + FrameId" where
  "BufHashTbl_lookup k s =
     (case hashTable s k of None \<Rightarrow> Inl HashNotFoundException | Some fr \<Rightarrow> Inr fr)"

definition BufHashTbl_insert :: "File option \<times> PageId \<Rightarrow> FrameId \<Rightarrow> BufMgr \<Rightarrow> exn + BufMgr" where
  "BufHashTbl_insert k fr s =
     (case hashTable s k of
        None \<Rightarrow> Inr (s\<lparr>hashTable := (hashTable s)(k \<mapsto> fr)\<rparr>)
      | Some _ \<Rightarrow> Inl HashAlreadyPresentException)"

definition BufHashTbl_remove :: "File option \<times> PageId \<Rightarrow> BufMgr \<Rightarrow> exn + BufMgr" where
  "BufHashTbl_remove k s =
     (case hashTable s k of
        None \<Rightarrow> Inl HashNotFoundException
      | Some _ \<Rightarrow> Inr (s\<lparr>hashTable := (hashTable s)(k := None)\<rparr>))"

subsection \<open>The constructor\<close>

text \<open>
  Modelled from the spec: the default constructors of \<open>Page\<close> and \<open>BufDesc\<close>, which
  are not part of src. A frame is created empty (section 3, "Lifecycles"), that is, in
  the state that \<open>Clear\<close> leaves.
\<close>

definition empty_Page :: "PageId \<Rightarrow> Page" where
  "empty_Page INV = \<lparr>page_number = INV, data = []\<rparr>"

definition default_BufDesc :: "PageId \<Rightarrow> BufDesc" where
  "default_BufDesc INV =
     \<lparr>file_ptr = None, pageNo = INV, frameNo = 0, pinCnt = 0, dirty = False, valid = False,
      refbit = False\<rparr>"

text \<open>
  \<open>BufMgr::BufMgr\<close>, lines 33-49. \<open>new BufDesc[bufs]\<close> default-constructs every
  descriptor; the loop then sets \<open>frameNo\<close> and \<open>valid\<close>. \<open>clockHand = bufs - 1\<close> is
  unsigned 32-bit arithmetic. The file objects are those that exist when the manager is
  built.
\<close>

definition BufMgr_new :: "PageId \<Rightarrow> nat \<Rightarrow> (File \<Rightarrow> FileObj) \<Rightarrow> BufMgr" where
  "BufMgr_new INV bufs fs =
     \<lparr>numBufs = bufs,
      bufDescTable = map (\<lambda>i. (default_BufDesc INV)\<lparr>frameNo := i, valid := False\<rparr>) [0..<bufs],
      bufPool = replicate bufs (empty_Page INV),
      hashTable = Map.empty,
      clockHand = (if bufs = 0 then 2 ^ 32 - 1 else bufs - 1),
      files = fs,
      calls = []\<rparr>"

subsection \<open>The clock: \<open>advanceClock\<close> and \<open>allocBuf\<close>\<close>

definition advanceClock :: "BufMgr \<Rightarrow> BufMgr" where
  "advanceClock s = s\<lparr>clockHand := (clockHand s + 1) mod numBufs s\<rparr>"

text \<open>\<open>set_desc i d\<close> stores \<open>d\<close> in \<open>bufDescTable[i]\<close>.\<close>

definition set_desc :: "FrameId \<Rightarrow> BufDesc \<Rightarrow> BufMgr \<Rightarrow> BufMgr" where
  "set_desc i d s = s\<lparr>bufDescTable := (bufDescTable s)[i := d]\<rparr>"

text \<open>
  Lines 92-102 of \<open>allocBuf\<close>: the frame under the clock hand is valid, not referenced
  and not pinned; it is written back when dirty, removed from the directory and cleared.
\<close>

definition evict :: "PageId \<Rightarrow> BufMgr \<Rightarrow> FrameId outcome" where
  "evict INV s =
     (let h = clockHand s;
          d = bufDescTable s ! h;
          s1 = (if dirty d then File_writePage (the (file_ptr d)) (bufPool s ! h) s else s)
      in case BufHashTbl_remove (file_ptr d, pageNo d) s1 of
           Inl e \<Rightarrow> (Inl e, s1)
         | Inr s2 \<Rightarrow> (Inr h, set_desc h (BufDesc_Clear INV d) s2))"

text \<open>
  The \<open>while\<close> loop of \<open>allocBuf\<close>, lines 75-103, with the local \<open>pinCount\<close> as an
  argument. The loop has no bound of its own, so the model is a partial function:
  \<open>None\<close> stands for a loop that never exits.
\<close>

partial_function (option) allocBuf_loop :: "PageId \<Rightarrow> BufMgr \<Rightarrow> nat \<Rightarrow> FrameId outcome option" where
  "allocBuf_loop INV s pinCount =
     (if pinCount = numBufs s then Some (Inl BufferExceededException, s)
      else if \<not> valid (bufDescTable (advanceClock s) ! clockHand (advanceClock s))
        then Some (Inr (clockHand (advanceClock s)), advanceClock s)
      else if refbit (bufDescTable (advanceClock s) ! clockHand (advanceClock s))
        then allocBuf_loop INV
               (set_desc (clockHand (advanceClock s))
                  ((bufDescTable (advanceClock s) ! clockHand (advanceClock s))\<lparr>refbit := False\<rparr>)
                  (advanceClock s))
               pinCount
      else if pinCnt (bufDescTable (advanceClock s) ! clockHand (advanceClock s)) > 0
        then allocBuf_loop INV (advanceClock s) (pinCount + 1)
      else Some (evict INV (advanceClock s)))"

declare allocBuf_loop.simps [code]

definition allocBuf :: "PageId \<Rightarrow> BufMgr \<Rightarrow> FrameId outcome option" where
  "allocBuf INV s = allocBuf_loop INV s 0"

text \<open>The state that an operation modelled with \<open>option\<close> leaves when it comes back.\<close>

definition after :: "'a outcome option \<Rightarrow> BufMgr" where
  "after r = snd (the r)"

subsection \<open>\<open>readPage\<close>, \<open>unPinPage\<close>, \<open>allocPage\<close>\<close>

text \<open>
  \<open>wrap_int32 x\<close> is the value of the 32-bit signed integer that holds \<open>x\<close> after
  wrap-around. Line 116, \<open>pinCnt += 1\<close>, stores \<open>wrap_int32 (pinCnt + 1)\<close>.
\<close>

definition wrap_int32 :: "int \<Rightarrow> int" where
  "wrap_int32 x = (x + 2147483648) mod 4294967296 - 2147483648"

text \<open>
  The \<open>Page*\<close> that \<open>readPage\<close> and \<open>allocPage\<close> hand back is \<open>&bufPool[frame]\<close>; the
  model returns \<open>frame\<close>, the index of that pool slot. The \<open>catch\<close> clause of
  \<open>readPage\<close> handles the miss; what is thrown inside it propagates.
\<close>

definition readPage :: "PageId \<Rightarrow> File \<Rightarrow> PageId \<Rightarrow> BufMgr \<Rightarrow> FrameId outcome option" where
  "readPage INV f p s =
     (case BufHashTbl_lookup (Some f, p) s of
        Inr frame \<Rightarrow>
          Some (Inr frame,
                set_desc frame
                  ((bufDescTable s ! frame)
                     \<lparr>pinCnt := wrap_int32 (pinCnt (bufDescTable s ! frame) + 1),
                      refbit := True\<rparr>) s)
      | Inl _ \<Rightarrow>
          (case allocBuf INV s of
             None \<Rightarrow> None
           | Some (Inl e, s1) \<Rightarrow> Some (Inl e, s1)
           | Some (Inr frame, s1) \<Rightarrow>
               (case File_readPage f p s1 of
                  (Inl e, s2) \<Rightarrow> Some (Inl e, s2)
                | (Inr pg, s2) \<Rightarrow>
                    (let s3 = s2\<lparr>bufPool := (bufPool s2)[frame := pg]\<rparr>
                     in case BufHashTbl_insert (Some f, p) frame s3 of
                          Inl e \<Rightarrow> Some (Inl e, s3)
                        | Inr s4 \<Rightarrow>
                            Some (Inr frame,
                                  set_desc frame
                                    (BufDesc_Set f p (bufDescTable s4 ! frame)) s4)))))"

definition unPinPage :: "File \<Rightarrow> PageId \<Rightarrow> bool \<Rightarrow> BufMgr \<Rightarrow> unit outcome" where
  "unPinPage f p dirty_arg s =
     (case BufHashTbl_lookup (Some f, p) s of
        Inl _ \<Rightarrow> (Inr (), s)
      | Inr frame \<Rightarrow>
          (let s1 = (if dirty_arg
                     then set_desc frame ((bufDescTable s ! frame)\<lparr>dirty := True\<rparr>) s
                     else s)
           in if pinCnt (bufDescTable s1 ! frame) \<le> 0
              then (Inl (PageNotPinnedException (filename (files s1 f)) p frame), s1)
              else (Inr (),
                    set_desc frame
                      ((bufDescTable s1 ! frame)\<lparr>pinCnt := pinCnt (bufDescTable s1 ! frame) - 1\<rparr>)
                      s1)))"

definition allocPage :: "PageId \<Rightarrow> File \<Rightarrow> BufMgr \<Rightarrow> (PageId \<times> FrameId) outcome option" where
  "allocPage INV f s =
     (case File_allocatePage f s of
        (new_page, s1) \<Rightarrow>
          (case allocBuf INV s1 of
             None \<Rightarrow> None
           | Some (Inl e, s2) \<Rightarrow> Some (Inl e, s2)
           | Some (Inr frame, s2) \<Rightarrow>
               (case BufHashTbl_insert (Some f, page_number new_page) frame s2 of
                  Inl e \<Rightarrow> Some (Inl e, s2)
                | Inr s3 \<Rightarrow>
                    (let s4 = set_desc frame
                                (BufDesc_Set f (page_number new_page) (bufDescTable s3 ! frame)) s3
                     in Some (Inr (page_number new_page, frame),
                              s4\<lparr>bufPool := (bufPool s4)[frame := new_page]\<rparr>)))))"

subsection \<open>\<open>flushFile\<close> and \<open>disposePage\<close>\<close>

text \<open>
  One iteration of the \<open>for\<close> loop of \<open>flushFile\<close> on a frame whose \<open>file\<close> equals the
  argument (lines 171-183). \<open>flushFile\<close> takes a \<open>const File*\<close> and only compares it, so
  its argument is a \<open>File option\<close>.
\<close>

definition flush_frame :: "PageId \<Rightarrow> FrameId \<Rightarrow> BufMgr \<Rightarrow> unit outcome" where
  "flush_frame INV i s =
     (let d = bufDescTable s ! i
      in if pinCnt d > 0
         then (Inl (PagePinnedException (filename (files s (the (file_ptr d)))) (pageNo d) i), s)
         else if pageNo d = INV
         then (Inl (BadBufferException i (dirty d) (valid d) (refbit d)), s)
         else
           (let s1 = (if dirty d
                      then set_desc i (d\<lparr>dirty := False\<rparr>)
                             (File_writePage (the (file_ptr d)) (bufPool s ! i) s)
                      else s)
            in case BufHashTbl_remove (file_ptr (bufDescTable s1 ! i), pageNo (bufDescTable s1 ! i)) s1 of
                 Inl e \<Rightarrow> (Inl e, s1)
               | Inr s2 \<Rightarrow> (Inr (), set_desc i (BufDesc_Clear INV (bufDescTable s2 ! i)) s2)))"

text \<open>
  The loop itself, over the frames \<open>i, i + 1, ..., numBufs - 1\<close>; the list \<open>js\<close> holds
  the frame numbers still to visit.
\<close>

fun flushFile_loop :: "PageId \<Rightarrow> File option \<Rightarrow> FrameId list \<Rightarrow> BufMgr \<Rightarrow> unit outcome" where
  "flushFile_loop INV fp [] s = (Inr (), s)"
| "flushFile_loop INV fp (i # js) s =
     (if file_ptr (bufDescTable s ! i) = fp
      then (case flush_frame INV i s of
              (Inl e, s1) \<Rightarrow> (Inl e, s1)
            | (Inr _, s1) \<Rightarrow> flushFile_loop INV fp js s1)
      else flushFile_loop INV fp js s)"

definition flushFile :: "PageId \<Rightarrow> File option \<Rightarrow> BufMgr \<Rightarrow> unit outcome" where
  "flushFile INV fp s = flushFile_loop INV fp [0..<numBufs s] s"

text \<open>
  \<open>disposePage\<close>, lines 188-201: the \<open>try\<close> block covers the lookup, the removal and the
  \<open>Clear\<close>; a \<open>HashNotFoundException\<close> from either directory call is swallowed.
\<close>

definition disposePage :: "PageId \<Rightarrow> File \<Rightarrow> PageId \<Rightarrow> BufMgr \<Rightarrow> unit outcome" where
  "disposePage INV f p s =
     (let s1 = (case BufHashTbl_lookup (Some f, p) s of
                  Inl _ \<Rightarrow> s
                | Inr frame \<Rightarrow>
                    (case BufHashTbl_remove (Some f, p) s of
                       Inl _ \<Rightarrow> s
                     | Inr s' \<Rightarrow> set_desc frame (BufDesc_Clear INV (bufDescTable s' ! frame)) s'))
      in (Inr (), File_deletePage f p s1))"

subsection \<open>The representation invariant\<close>

text \<open>
  \<open>key_of d\<close> is the (file, page number) pair under which the directory knows a frame.
  \<open>wf\<close> says that both arrays have \<open>numBufs\<close> elements. \<open>good\<close> is the invariant that
  the constructor establishes and every member function keeps: a valid frame has an
  owner and its directory entry, an invalid frame is in the cleared state, and the
  directory has no other entries.
\<close>

definition key_of :: "BufDesc \<Rightarrow> File option \<times> PageId" where
  "key_of d = (file_ptr d, pageNo d)"

definition wf :: "BufMgr \<Rightarrow> bool" where
  "wf s \<longleftrightarrow> length (bufDescTable s) = numBufs s \<and> length (bufPool s) = numBufs s"

definition good :: "PageId \<Rightarrow> BufMgr \<Rightarrow> bool" where
  "good INV s \<longleftrightarrow>
     wf s \<and>
     (\<forall>i<numBufs s.
        (valid (bufDescTable s ! i) \<longrightarrow>
           file_ptr (bufDescTable s ! i) \<noteq> None \<and>
           hashTable s (key_of (bufDescTable s ! i)) = Some i) \<and>
        (\<not> valid (bufDescTable s ! i) \<longrightarrow>
           bufDescTable s ! i = BufDesc_Clear INV (bufDescTable s ! i))) \<and>
     (\<forall>k i. hashTable s k = Some i \<longrightarrow>
        i < numBufs s \<and> valid (bufDescTable s ! i) \<and> key_of (bufDescTable s ! i) = k)"

subsection \<open>The directory invariant and the reachable states\<close>

text \<open>
  \<open>dir_inv\<close> is the invariant of section 8 of the spec: a frame is valid if and only
  if the directory maps the frame's (file, page number) pair to it, and no two valid
  frames hold the same pair. (Every empty frame carries the null file and the sentinel
  page number; the second part speaks of the frames that hold a page.)

  \<open>reachable\<close> are the states of a manager in use: the constructor's, and those that an
  operation leaves behind when it returns or raises. Between two operations the client
  may write into a pool page through the pointer it was given, and the files may change.
\<close>

definition dir_inv :: "BufMgr \<Rightarrow> bool" where
  "dir_inv s \<longleftrightarrow>
     (\<forall>i<numBufs s.
        valid (bufDescTable s ! i) \<longleftrightarrow> hashTable s (key_of (bufDescTable s ! i)) = Some i) \<and>
     (\<forall>i<numBufs s. \<forall>j<numBufs s.
        valid (bufDescTable s ! i) \<and> valid (bufDescTable s ! j) \<and>
        key_of (bufDescTable s ! i) = key_of (bufDescTable s ! j) \<longrightarrow> i = j)"

inductive reachable :: "PageId \<Rightarrow> BufMgr \<Rightarrow> bool" for INV :: PageId where
  new: "reachable INV (BufMgr_new INV bufs fs)"
| readPage: "reachable INV s \<Longrightarrow> readPage INV f p s = Some (r, s') \<Longrightarrow> reachable INV s'"
| allocPage: "reachable INV s \<Longrightarrow> allocPage INV f s = Some (r2, s') \<Longrightarrow> reachable INV s'"
| unPinPage: "reachable INV s \<Longrightarrow> unPinPage f p d s = (r3, s') \<Longrightarrow> reachable INV s'"
| flushFile: "reachable INV s \<Longrightarrow> flushFile INV fp s = (r3, s') \<Longrightarrow> reachable INV s'"
| disposePage: "reachable INV s \<Longrightarrow> disposePage INV f p s = (r3, s') \<Longrightarrow> reachable INV s'"
| allocBuf: "reachable INV s \<Longrightarrow> allocBuf INV s = Some (r, s') \<Longrightarrow> reachable INV s'"
| client_write: "reachable INV s \<Longrightarrow> reachable INV (s\<lparr>bufPool := (bufPool s)[i := pg]\<rparr>)"
| file_change: "reachable INV s \<Longrightarrow> reachable INV (s\<lparr>files := fs\<rparr>)"

text \<open>
  \<open>first_unflushable INV f s i\<close>: frame \<open>i\<close> is the first frame in scan order that
  belongs to file \<open>f\<close> and that \<open>flushFile\<close> refuses, because it is pinned or carries
  the sentinel page number.
\<close>

definition first_unflushable :: "PageId \<Rightarrow> File \<Rightarrow> BufMgr \<Rightarrow> FrameId \<Rightarrow> bool" where
  "first_unflushable INV f s i \<longleftrightarrow>
     i < numBufs s \<and> file_ptr (bufDescTable s ! i) = Some f \<and>
     (pinCnt (bufDescTable s ! i) > 0 \<or> pageNo (bufDescTable s ! i) = INV) \<and>
     (\<forall>j\<in>{0..<i}. file_ptr (bufDescTable s ! j) = Some f \<longrightarrow>
        \<not> pinCnt (bufDescTable s ! j) > 0 \<and> pageNo (bufDescTable s ! j) \<noteq> INV)"

subsection \<open>Example states\<close>

text \<open>
  Two files with pages 1 to 4 each, and states of a two-frame manager (with the sentinel
  \<open>INVALID_NUMBER = 0\<close>) reached by running the operations from the constructor.
\<close>

definition ex_files :: "File \<Rightarrow> FileObj" where
  "ex_files f =
     \<lparr>filename = (if f = 7 then ''A'' else ''B''),
      pages = map (\<lambda>n. \<lparr>page_number = n, data = ''x''\<rparr>) [1, 2, 3, 4]\<rparr>"

definition ex_pinned :: BufMgr where
  "ex_pinned = after (readPage 0 7 1 (BufMgr_new 0 2 ex_files))"

definition ex_unpinned :: BufMgr where
  "ex_unpinned = snd (unPinPage 7 1 True ex_pinned)"

definition ex_clean_unpinned :: BufMgr where
  "ex_clean_unpinned = snd (unPinPage 7 1 False ex_pinned)"

text \<open>
  \<open>ex_spurious\<close>: pages 1 and 2 are read, page 2 is unpinned, page 3 is read (it takes
  the frame of page 2) and unpinned. Frame 0 then holds the pinned page 1 with its
  reference bit cleared, frame 1 holds the unpinned page 3 with its reference bit set,
  and the clock hand is on frame 1. \<open>ex_full\<close>: a one-frame manager whose frame is pinned.
\<close>

definition ex_spurious :: BufMgr where
  "ex_spurious =
     snd (unPinPage 7 3 False
       (after (readPage 0 7 3
         (snd (unPinPage 7 2 False
           (after (readPage 0 7 2 ex_pinned)))))))"

definition ex_full :: BufMgr where
  "ex_full = after (readPage 0 7 1 (BufMgr_new 0 1 ex_files))"

text \<open>
  \<open>ex_mixed\<close>: frame 0 holds page 1 of file 7, dirty and unpinned, frame 1 holds page 2
  of file 7, pinned. \<open>ex_two_files\<close>: the same with page 2 of file 8 in frame 1.
  \<open>ex_bad\<close>: a manager whose sentinel is 4, after reading and unpinning page 4 of file 7.
  \<open>pinned_n k\<close>: \<open>ex_pinned\<close> with \<open>k\<close> pins on page 1 of file 7 instead of one;
  \<open>ex_max_pins\<close>: with \<open>2^31 - 1\<close> of them.
\<close>

definition pinned_n :: "int \<Rightarrow> BufMgr" where
  "pinned_n k = set_desc 0 ((bufDescTable ex_pinned ! 0)\<lparr>pinCnt := k\<rparr>) ex_pinned"

definition ex_max_pins :: BufMgr where
  "ex_max_pins = pinned_n 2147483647"

definition ex_mixed :: BufMgr where
  "ex_mixed = after (readPage 0 7 2 ex_unpinned)"

definition ex_two_files :: BufMgr where
  "ex_two_files = after (readPage 0 8 2 ex_unpinned)"

definition ex_bad :: BufMgr where
  "ex_bad = snd (unPinPage 7 4 False (after (readPage 4 7 4 (BufMgr_new 4 2 ex_files))))"

section \<open>Basic facts\<close>

lemma set_desc_simps [simp]:
  "numBufs (set_desc i d s) = numBufs s"
  "bufDescTable (set_desc i d s) = (bufDescTable s)[i := d]"
  "bufPool (set_desc i d s) = bufPool s"
  "hashTable (set_desc i d s) = hashTable s"
  "clockHand (set_desc i d s) = clockHand s"
  "files (set_desc i d s) = files s"
  "calls (set_desc i d s) = calls s"
  by (simp_all add: set_desc_def)

lemma advanceClock_simps [simp]:
  "numBufs (advanceClock s) = numBufs s"
  "bufDescTable (advanceClock s) = bufDescTable s"
  "bufPool (advanceClock s) = bufPool s"
  "hashTable (advanceClock s) = hashTable s"
  "clockHand (advanceClock s) = (clockHand s + 1) mod numBufs s"
  "files (advanceClock s) = files s"
  "calls (advanceClock s) = calls s"
  by (simp_all add: advanceClock_def)

lemma File_writePage_simps [simp]:
  "numBufs (File_writePage f pg s) = numBufs s"
  "bufDescTable (File_writePage f pg s) = bufDescTable s"
  "bufPool (File_writePage f pg s) = bufPool s"
  "hashTable (File_writePage f pg s) = hashTable s"
  "clockHand (File_writePage f pg s) = clockHand s"
  "calls (File_writePage f pg s) = calls s @ [WritePageCall f pg]"
  "filename (files (File_writePage f pg s) g) = filename (files s g)"
  by (simp_all add: File_writePage_def)

lemma File_deletePage_simps [simp]:
  "numBufs (File_deletePage f p s) = numBufs s"
  "bufDescTable (File_deletePage f p s) = bufDescTable s"
  "bufPool (File_deletePage f p s) = bufPool s"
  "hashTable (File_deletePage f p s) = hashTable s"
  "clockHand (File_deletePage f p s) = clockHand s"
  "calls (File_deletePage f p s) = calls s @ [DeletePageCall f p]"
  "filename (files (File_deletePage f p s) g) = filename (files s g)"
  by (simp_all add: File_deletePage_def)


lemma goodI:
  assumes "wf s"
    and "\<And>i. i < numBufs s \<Longrightarrow> valid (bufDescTable s ! i) \<Longrightarrow>
           file_ptr (bufDescTable s ! i) \<noteq> None \<and>
           hashTable s (key_of (bufDescTable s ! i)) = Some i"
    and "\<And>i. i < numBufs s \<Longrightarrow> \<not> valid (bufDescTable s ! i) \<Longrightarrow>
           bufDescTable s ! i = BufDesc_Clear INV (bufDescTable s ! i)"
    and "\<And>k i. hashTable s k = Some i \<Longrightarrow>
           i < numBufs s \<and> valid (bufDescTable s ! i) \<and> key_of (bufDescTable s ! i) = k"
  shows "good INV s"
  unfolding good_def using assms by blast

lemma good_wf: "good INV s \<Longrightarrow> wf s"
  by (simp add: good_def)

lemma good_len: "good INV s \<Longrightarrow> length (bufDescTable s) = numBufs s"
  by (simp add: good_def wf_def)

lemma good_valid:
  "good INV s \<Longrightarrow> i < numBufs s \<Longrightarrow> valid (bufDescTable s ! i) \<Longrightarrow>
     file_ptr (bufDescTable s ! i) \<noteq> None \<and> hashTable s (key_of (bufDescTable s ! i)) = Some i"
  unfolding good_def by blast

lemma good_invalid:
  "good INV s \<Longrightarrow> i < numBufs s \<Longrightarrow> \<not> valid (bufDescTable s ! i) \<Longrightarrow>
     bufDescTable s ! i = BufDesc_Clear INV (bufDescTable s ! i)"
  unfolding good_def by blast

lemma good_hash:
  "good INV s \<Longrightarrow> hashTable s k = Some i \<Longrightarrow>
     i < numBufs s \<and> valid (bufDescTable s ! i) \<and> key_of (bufDescTable s ! i) = k"
  unfolding good_def by blast

lemma good_advanceClock: "good INV s \<Longrightarrow> good INV (advanceClock s)"
  by (simp add: good_def wf_def)

lemma good_File_writePage: "good INV s \<Longrightarrow> good INV (File_writePage f pg s)"
  by (simp add: good_def wf_def)

text \<open>Changing a valid frame's pin count, dirty bit or reference bit keeps the invariant.\<close>

lemma good_set_desc_same:
  assumes g: "good INV s" and i: "i < numBufs s" and v: "valid (bufDescTable s ! i)" "valid d"
    and k: "key_of d = key_of (bufDescTable s ! i)"
  shows "good INV (set_desc i d s)"
proof (rule goodI)
  note len = good_len [OF g]
  show "wf (set_desc i d s)" using good_wf [OF g] by (simp add: wf_def)
  have fp: "file_ptr d = file_ptr (bufDescTable s ! i)"
    using k by (simp add: key_of_def)
  { fix j assume j: "j < numBufs (set_desc i d s)" "valid (bufDescTable (set_desc i d s) ! j)"
    show "file_ptr (bufDescTable (set_desc i d s) ! j) \<noteq> None \<and>
          hashTable (set_desc i d s) (key_of (bufDescTable (set_desc i d s) ! j)) = Some j"
    proof (cases "j = i")
      case True
      then show ?thesis using good_valid [OF g i v(1)] i len k fp by simp
    next
      case False
      then show ?thesis using good_valid [OF g, of j] j by simp
    qed }
  { fix j assume j: "j < numBufs (set_desc i d s)" "\<not> valid (bufDescTable (set_desc i d s) ! j)"
    show "bufDescTable (set_desc i d s) ! j = BufDesc_Clear INV (bufDescTable (set_desc i d s) ! j)"
    proof (cases "j = i")
      case True
      then show ?thesis using j v i len by simp
    next
      case False
      then show ?thesis using good_invalid [OF g, of j] j by simp
    qed }
  { fix k' j assume h: "hashTable (set_desc i d s) k' = Some j"
    then have h': "hashTable s k' = Some j" by simp
    show "j < numBufs (set_desc i d s) \<and> valid (bufDescTable (set_desc i d s) ! j) \<and>
          key_of (bufDescTable (set_desc i d s) ! j) = k'"
    proof (cases "j = i")
      case True
      then show ?thesis using good_hash [OF g h'] i len v k by simp
    next
      case False
      then show ?thesis using good_hash [OF g h'] by simp
    qed }
qed

text \<open>Removing a valid frame's directory entry and clearing the frame keeps the invariant.\<close>

lemma good_remove_clear:
  assumes g: "good INV s" and i: "i < numBufs s" and v: "valid (bufDescTable s ! i)"
  shows "good INV (set_desc i (BufDesc_Clear INV d)
                    (s\<lparr>hashTable := (hashTable s)(key_of (bufDescTable s ! i) := None)\<rparr>))"
    (is "good INV ?t")
proof (rule goodI)
  note len = good_len [OF g]
  let ?k = "key_of (bufDescTable s ! i)"
  have hi: "hashTable s ?k = Some i" using good_valid [OF g i v] by simp
  show "wf ?t" using good_wf [OF g] by (simp add: wf_def)
  { fix j assume j: "j < numBufs ?t" "valid (bufDescTable ?t ! j)"
    have ji: "j \<noteq> i" using j i len by (auto simp: BufDesc_Clear_def)
    then have vj: "valid (bufDescTable s ! j)" and jn: "j < numBufs s" using j by simp_all
    have "key_of (bufDescTable s ! j) \<noteq> ?k"
      using good_valid [OF g jn vj] hi ji by auto
    then show "file_ptr (bufDescTable ?t ! j) \<noteq> None \<and>
          hashTable ?t (key_of (bufDescTable ?t ! j)) = Some j"
      using good_valid [OF g jn vj] ji by simp }
  { fix j assume j: "j < numBufs ?t" "\<not> valid (bufDescTable ?t ! j)"
    show "bufDescTable ?t ! j = BufDesc_Clear INV (bufDescTable ?t ! j)"
    proof (cases "j = i")
      case True
      then show ?thesis using i len by (simp add: BufDesc_Clear_def)
    next
      case False
      then show ?thesis using good_invalid [OF g, of j] j by simp
    qed }
  { fix k' j assume h: "hashTable ?t k' = Some j"
    then have kk: "k' \<noteq> ?k" and h': "hashTable s k' = Some j"
      by (auto split: if_splits)
    have "j \<noteq> i" using good_hash [OF g h'] kk by auto
    then show "j < numBufs ?t \<and> valid (bufDescTable ?t ! j) \<and> key_of (bufDescTable ?t ! j) = k'"
      using good_hash [OF g h'] by simp }
qed

lemma evict_good:
  assumes g: "good INV s" and i: "clockHand s < numBufs s"
    and v: "valid (bufDescTable s ! clockHand s)"
  shows "\<exists>s'. evict INV s = (Inr (clockHand s), s') \<and> good INV s' \<and> numBufs s' = numBufs s \<and>
           \<not> valid (bufDescTable s' ! clockHand s) \<and>
           (\<forall>k. hashTable s k = None \<longrightarrow> hashTable s' k = None)"
proof -
  let ?h = "clockHand s"
  let ?d = "bufDescTable s ! ?h"
  define s1 where "s1 = (if dirty ?d then File_writePage (the (file_ptr ?d)) (bufPool s ! ?h) s else s)"
  have g1: "good INV s1" using g by (simp add: s1_def good_File_writePage)
  have same: "hashTable s1 = hashTable s" "bufDescTable s1 = bufDescTable s" "numBufs s1 = numBufs s"
    by (simp_all add: s1_def)
  have h1: "hashTable s1 (key_of ?d) = Some ?h"
    using good_valid [OF g i v] same by simp
  let ?t = "set_desc ?h (BufDesc_Clear INV ?d) (s1\<lparr>hashTable := (hashTable s1)(key_of ?d := None)\<rparr>)"
  have ev: "evict INV s = (Inr ?h, ?t)"
    using h1 unfolding evict_def Let_def s1_def [symmetric] BufHashTbl_remove_def key_of_def
    by simp
  have gt: "good INV ?t"
    using good_remove_clear [OF g1, of ?h ?d] i v same by simp
  have "\<not> valid (bufDescTable ?t ! ?h)"
    using i good_len [OF g] same by (simp add: BufDesc_Clear_def)
  moreover have "\<forall>k. hashTable s k = None \<longrightarrow> hashTable ?t k = None"
    using same by simp
  moreover have "numBufs ?t = numBufs s" using same by simp
  ultimately show ?thesis using ev gt by blast
qed


lemma filter_update_less:
  "i < length xs \<Longrightarrow> P (xs ! i) \<Longrightarrow> \<not> P y \<Longrightarrow>
     length (filter P (xs[i := y])) < length (filter P xs)"
proof (induction xs arbitrary: i)
  case Nil
  then show ?case by simp
next
  case (Cons x xs)
  then show ?case by (cases i) auto
qed

lemma allocBuf_loop_good:
  assumes "good INV s" "pinCount \<le> numBufs s"
  shows "\<exists>r s'. allocBuf_loop INV s pinCount = Some (r, s') \<and> good INV s' \<and>
           numBufs s' = numBufs s \<and>
           (\<forall>k. hashTable s k = None \<longrightarrow> hashTable s' k = None) \<and>
           (case r of Inl e \<Rightarrow> e = BufferExceededException
                    | Inr fr \<Rightarrow> fr < numBufs s \<and> \<not> valid (bufDescTable s' ! fr))"
  using assms
proof (induction "(numBufs s - pinCount) + length (filter refbit (bufDescTable s))"
         arbitrary: s pinCount rule: less_induct)
  case less
  note g = less.prems(1) and pc = less.prems(2)
  show ?case
  proof (cases "pinCount = numBufs s")
    case True
    then show ?thesis using g by (subst allocBuf_loop.simps) simp
  next
    case False
    then have pos: "pinCount < numBufs s" using pc by simp
    let ?s1 = "advanceClock s"
    let ?h = "clockHand ?s1"
    let ?d = "bufDescTable ?s1 ! ?h"
    have h: "?h < numBufs s" using pos by simp
    have g1: "good INV ?s1" by (rule good_advanceClock [OF g])
    have len: "length (bufDescTable s) = numBufs s" by (rule good_len [OF g])
    consider (inv) "\<not> valid ?d" | (ref) "valid ?d" "refbit ?d"
      | (pin) "valid ?d" "\<not> refbit ?d" "pinCnt ?d > 0"
      | (ev) "valid ?d" "\<not> refbit ?d" "\<not> pinCnt ?d > 0" by blast
    then show ?thesis
    proof cases
      case inv
      then show ?thesis using False g1 h by (subst allocBuf_loop.simps) simp
    next
      case ref
      let ?s2 = "set_desc ?h (?d\<lparr>refbit := False\<rparr>) ?s1"
      have g2: "good INV ?s2"
        using good_set_desc_same [OF g1, of ?h "?d\<lparr>refbit := False\<rparr>"] h ref
        by (simp add: key_of_def)
      have "length (filter refbit (bufDescTable ?s2)) < length (filter refbit (bufDescTable s))"
        using filter_update_less [of ?h "bufDescTable s" refbit "?d\<lparr>refbit := False\<rparr>"] h len ref
        by simp
      then have m: "(numBufs ?s2 - pinCount) + length (filter refbit (bufDescTable ?s2))
                 < (numBufs s - pinCount) + length (filter refbit (bufDescTable s))"
        by simp
      have pc2: "pinCount \<le> numBufs ?s2" using pc by simp
      from less.hyps [OF m g2 pc2]
      obtain r s' where r: "allocBuf_loop INV ?s2 pinCount = Some (r, s')" "good INV s'"
        "numBufs s' = numBufs ?s2" "\<forall>k. hashTable ?s2 k = None \<longrightarrow> hashTable s' k = None"
        "case r of Inl e \<Rightarrow> e = BufferExceededException
                 | Inr fr \<Rightarrow> fr < numBufs ?s2 \<and> \<not> valid (bufDescTable s' ! fr)"
        by blast
      have "allocBuf_loop INV s pinCount = Some (r, s')"
        using False ref r(1) by (subst allocBuf_loop.simps) simp
      then show ?thesis using r by (simp split: sum.splits)
    next
      case pin
      have m: "(numBufs ?s1 - (pinCount + 1)) + length (filter refbit (bufDescTable ?s1))
                 < (numBufs s - pinCount) + length (filter refbit (bufDescTable s))"
        using pos by simp
      have pc2: "pinCount + 1 \<le> numBufs ?s1" using pos by simp
      from less.hyps [OF m g1 pc2]
      obtain r s' where r: "allocBuf_loop INV ?s1 (pinCount + 1) = Some (r, s')" "good INV s'"
        "numBufs s' = numBufs ?s1" "\<forall>k. hashTable ?s1 k = None \<longrightarrow> hashTable s' k = None"
        "case r of Inl e \<Rightarrow> e = BufferExceededException
                 | Inr fr \<Rightarrow> fr < numBufs ?s1 \<and> \<not> valid (bufDescTable s' ! fr)"
        by blast
      have "allocBuf_loop INV s pinCount = Some (r, s')"
        using False pin r(1) by (subst allocBuf_loop.simps) simp
      then show ?thesis using r by (simp split: sum.splits)
    next
      case ev
      have h1: "clockHand ?s1 < numBufs ?s1" using h by simp
      from evict_good [OF g1 h1 ev(1)]
      obtain s' where e: "evict INV ?s1 = (Inr ?h, s')" "good INV s'" "numBufs s' = numBufs ?s1"
        "\<not> valid (bufDescTable s' ! ?h)" "\<forall>k. hashTable ?s1 k = None \<longrightarrow> hashTable s' k = None"
        by blast
      have "allocBuf_loop INV s pinCount = Some (Inr ?h, s')"
        using False ev e(1) by (subst allocBuf_loop.simps) simp
      then show ?thesis using e h by simp
    qed
  qed
qed

section \<open>\<open>unPinPage\<close>\<close>

text \<open>
  Claim C6. \<open>unPinPage(file, pageNo, dirty)\<close> on a page that the directory does not
  hold returns normally and leaves the whole state as it was. On a resident page whose
  frame has \<open>pinCnt \<le> 0\<close> (in particular \<open>pinCnt = 0\<close>) it raises
  \<open>PageNotPinnedException\<close> carrying the file's name, the page number and the frame
  number. On a resident page with \<open>pinCnt > 0\<close> it returns normally, the frame's pin
  count is one less, and no frame's reference bit has changed.
\<close>

theorem unPinPage_cases:
  "(hashTable s (Some f, p) = None \<longrightarrow> unPinPage f p d s = (Inr (), s)) \<and>
   (\<forall>fr. hashTable s (Some f, p) = Some fr \<and> fr < length (bufDescTable s) \<and>
          pinCnt (bufDescTable s ! fr) \<le> 0 \<longrightarrow>
          fst (unPinPage f p d s) = Inl (PageNotPinnedException (filename (files s f)) p fr)) \<and>
   (\<forall>fr. hashTable s (Some f, p) = Some fr \<and> fr < length (bufDescTable s) \<and>
          pinCnt (bufDescTable s ! fr) > 0 \<longrightarrow>
          fst (unPinPage f p d s) = Inr () \<and>
          pinCnt (bufDescTable (snd (unPinPage f p d s)) ! fr) = pinCnt (bufDescTable s ! fr) - 1 \<and>
          map refbit (bufDescTable (snd (unPinPage f p d s))) = map refbit (bufDescTable s))"
  by (auto simp: unPinPage_def BufHashTbl_lookup_def Let_def map_update list_update_same_conv)

theorem unPinPage_cases_witness:
  "hashTable ex_pinned (Some 7, 9) = None \<and>
   unPinPage 7 9 True ex_pinned = (Inr (), ex_pinned) \<and>
   hashTable ex_unpinned (Some 7, 1) = Some 0 \<and> 0 < length (bufDescTable ex_unpinned) \<and>
   pinCnt (bufDescTable ex_unpinned ! 0) \<le> 0 \<and>
   fst (unPinPage 7 1 False ex_unpinned) = Inl (PageNotPinnedException ''A'' 1 0) \<and>
   hashTable ex_pinned (Some 7, 1) = Some 0 \<and> 0 < length (bufDescTable ex_pinned) \<and>
   pinCnt (bufDescTable ex_pinned ! 0) > 0 \<and>
   fst (unPinPage 7 1 False ex_pinned) = Inr () \<and>
   pinCnt (bufDescTable (snd (unPinPage 7 1 False ex_pinned)) ! 0) = 0 \<and>
   map refbit (bufDescTable (snd (unPinPage 7 1 False ex_pinned))) = [True, False]"
proof -
  have a: "hashTable ex_pinned (Some 7, 9) = None" by code_simp
  have b: "hashTable ex_unpinned (Some 7, 1) = Some 0" "0 < length (bufDescTable ex_unpinned)"
    "pinCnt (bufDescTable ex_unpinned ! 0) \<le> 0" by code_simp+
  have c: "hashTable ex_pinned (Some 7, 1) = Some 0" "0 < length (bufDescTable ex_pinned)"
    "pinCnt (bufDescTable ex_pinned ! 0) > 0" by code_simp+
  have d: "filename (files ex_unpinned 7) = ''A''" "pinCnt (bufDescTable ex_pinned ! 0) = 1"
    "map refbit (bufDescTable ex_pinned) = [True, False]" by code_simp+
  show ?thesis
    using a b c d unPinPage_cases [of ex_pinned 7 9 True] unPinPage_cases [of ex_unpinned 7 1 False]
      unPinPage_cases [of ex_pinned 7 1 False]
    by simp
qed

text \<open>
  Claim C10. On a resident page whose frame has \<open>pinCnt = 0\<close>, \<open>unPinPage\<close> with
  \<open>dirty = true\<close> raises \<open>PageNotPinnedException\<close>, and the state in which the
  exception leaves the call differs from the state before it exactly in that frame's
  dirty bit, which is set: the assignment of line 136 comes before the test of line 138.
\<close>

theorem unPinPage_dirty_before_throw:
  "hashTable s (Some f, p) = Some fr \<Longrightarrow> fr < length (bufDescTable s) \<Longrightarrow>
   pinCnt (bufDescTable s ! fr) = 0 \<Longrightarrow>
     unPinPage f p True s =
       (Inl (PageNotPinnedException (filename (files s f)) p fr),
        set_desc fr ((bufDescTable s ! fr)\<lparr>dirty := True\<rparr>) s) \<and>
     dirty (bufDescTable (snd (unPinPage f p True s)) ! fr)"
  by (simp add: unPinPage_def BufHashTbl_lookup_def Let_def)

theorem unPinPage_dirty_before_throw_witness:
  "hashTable ex_clean_unpinned (Some 7, 1) = Some 0 \<and>
   0 < length (bufDescTable ex_clean_unpinned) \<and>
   pinCnt (bufDescTable ex_clean_unpinned ! 0) = 0 \<and>
   \<not> dirty (bufDescTable ex_clean_unpinned ! 0) \<and>
   fst (unPinPage 7 1 True ex_clean_unpinned) = Inl (PageNotPinnedException ''A'' 1 0) \<and>
   dirty (bufDescTable (snd (unPinPage 7 1 True ex_clean_unpinned)) ! 0)"
proof -
  have h: "hashTable ex_clean_unpinned (Some 7, 1) = Some 0"
    "0 < length (bufDescTable ex_clean_unpinned)"
    "pinCnt (bufDescTable ex_clean_unpinned ! 0) = 0" by code_simp+
  have n: "\<not> dirty (bufDescTable ex_clean_unpinned ! 0)"
    "filename (files ex_clean_unpinned 7) = ''A''" by code_simp+
  show ?thesis
    using h n unPinPage_dirty_before_throw [OF h] by simp
qed

section \<open>\<open>disposePage\<close>\<close>

text \<open>
  Claim C7. \<open>disposePage(file, pageNo)\<close> on a resident page returns normally; afterwards
  the directory has lost exactly the entry of (file, pageNo), the page's frame is in the
  cleared state, and the only call made on a file is \<open>deletePage(pageNo)\<close> on
  \<open>file\<close>: there is no \<open>writePage\<close>, whether the frame was dirty or not. On a page
  that is not resident it returns normally too, and all it does is that \<open>deletePage\<close>.
\<close>

theorem disposePage_cases:
  "(\<forall>fr. hashTable s (Some f, p) = Some fr \<and> fr < length (bufDescTable s) \<longrightarrow>
      fst (disposePage INV f p s) = Inr () \<and>
      hashTable (snd (disposePage INV f p s)) = (hashTable s)((Some f, p) := None) \<and>
      bufDescTable (snd (disposePage INV f p s)) =
        (bufDescTable s)[fr := BufDesc_Clear INV (bufDescTable s ! fr)] \<and>
      \<not> valid (bufDescTable (snd (disposePage INV f p s)) ! fr) \<and>
      calls (snd (disposePage INV f p s)) = calls s @ [DeletePageCall f p]) \<and>
   (hashTable s (Some f, p) = None \<longrightarrow>
      disposePage INV f p s = (Inr (), File_deletePage f p s) \<and>
      calls (snd (disposePage INV f p s)) = calls s @ [DeletePageCall f p])"
  by (auto simp: disposePage_def BufHashTbl_lookup_def BufHashTbl_remove_def Let_def
        BufDesc_Clear_def)

theorem disposePage_cases_witness:
  "hashTable ex_unpinned (Some 7, 1) = Some 0 \<and> 0 < length (bufDescTable ex_unpinned) \<and>
   dirty (bufDescTable ex_unpinned ! 0) \<and>
   fst (disposePage 0 7 1 ex_unpinned) = Inr () \<and>
   hashTable (snd (disposePage 0 7 1 ex_unpinned)) (Some 7, 1) = None \<and>
   \<not> valid (bufDescTable (snd (disposePage 0 7 1 ex_unpinned)) ! 0) \<and>
   calls (snd (disposePage 0 7 1 ex_unpinned)) = [ReadPageCall 7 1, DeletePageCall 7 1] \<and>
   hashTable ex_unpinned (Some 7, 2) = None \<and>
   fst (disposePage 0 7 2 ex_unpinned) = Inr () \<and>
   calls (snd (disposePage 0 7 2 ex_unpinned)) = [ReadPageCall 7 1, DeletePageCall 7 2]"
proof -
  have h: "hashTable ex_unpinned (Some 7, 1) = Some 0" "0 < length (bufDescTable ex_unpinned)"
    "dirty (bufDescTable ex_unpinned ! 0)" "calls ex_unpinned = [ReadPageCall 7 1]"
    "hashTable ex_unpinned (Some 7, 2) = None" by code_simp+
  show ?thesis
    using h disposePage_cases [of ex_unpinned 7 1 0] disposePage_cases [of ex_unpinned 7 2 0]
    by (simp add: BufDesc_Clear_def)
qed

section \<open>\<open>allocBuf\<close> gives up too early\<close>

text \<open>
  Claim C1 says that \<open>allocBuf\<close> raises \<open>BufferExceededException\<close> only when every
  frame is pinned. The code counts in \<open>pinCount\<close> every visit of a pinned frame, and
  never resets the count, so a frame visited on two passes counts twice. In
  \<open>ex_spurious\<close>, a state reached from the constructor by \<open>readPage\<close> and \<open>unPinPage\<close>
  alone, frame 1 is valid and has \<open>pinCnt = 0\<close>, and yet \<open>allocBuf\<close>, and with it
  \<open>readPage\<close> of a page that is not resident, raises \<open>BufferExceededException\<close>: the hand
  sees frame 0 pinned, clears the reference bit of frame 1, sees frame 0 pinned again,
  and the loop ends at \<open>pinCount = 2 = numBufs\<close>. A second call of \<open>allocBuf\<close>, in
  the state the first one left, returns frame 1.
\<close>

theorem allocBuf_spurious_BufferExceeded:
  "numBufs ex_spurious = 2 \<and>
   valid (bufDescTable ex_spurious ! 1) \<and> pinCnt (bufDescTable ex_spurious ! 1) = 0 \<and>
   map_option fst (allocBuf 0 ex_spurious) = Some (Inl BufferExceededException) \<and>
   map_option fst (readPage 0 7 4 ex_spurious) = Some (Inl BufferExceededException) \<and>
   map_option fst (allocBuf 0 (after (allocBuf 0 ex_spurious))) = Some (Inr 1)"
  by code_simp


section \<open>\<open>allocPage\<close>\<close>

lemma fold_max_ge: "x \<in> set xs \<Longrightarrow> x \<le> fold max xs (a::nat)"
proof (induction xs arbitrary: a)
  case Nil
  then show ?case by simp
next
  case (Cons y ys)
  have mono: "\<And>b. b \<le> fold max ys b"
  proof -
    fix b show "b \<le> fold max ys (b::nat)"
    proof (induction ys arbitrary: b)
      case Nil show ?case by simp
    next
      case (Cons z zs)
      have "max z b \<le> fold max zs (max z b)" by (rule Cons.IH)
      then show ?case by simp
    qed
  qed
  show ?case
  proof (cases "x = y")
    case True
    have "max y a \<le> fold max ys (max y a)" by (rule mono)
    then show ?thesis using True by simp
  next
    case False
    then have "x \<in> set ys" using Cons.prems by simp
    then show ?thesis using Cons.IH by simp
  qed
qed

lemma fresh_page_number_new:
  "fresh_page_number ps \<notin> page_number ` set ps"
proof
  assume "fresh_page_number ps \<in> page_number ` set ps"
  then have "fresh_page_number ps \<in> set (map page_number ps)" by simp
  from fold_max_ge [OF this, of 0] show False by (simp add: fresh_page_number_def)
qed

lemma evict_not_BufferExceeded: "fst (evict INV s) \<noteq> Inl BufferExceededException"
  by (simp add: evict_def Let_def BufHashTbl_remove_def split: option.splits)

lemma allocBuf_loop_BufferExceeded:
  assumes "allocBuf_loop INV s pinCount = Some y"
  shows "fst y = Inl BufferExceededException \<longrightarrow>
     files (snd y) = files s \<and> calls (snd y) = calls s \<and> hashTable (snd y) = hashTable s \<and>
     bufPool (snd y) = bufPool s"
proof (rule allocBuf_loop.raw_induct [OF _ assms])
  fix loop :: "PageId \<Rightarrow> BufMgr \<Rightarrow> nat \<Rightarrow> FrameId outcome option" and INV s pinCount y
  let ?Q = "\<lambda>s y. fst y = Inl BufferExceededException \<longrightarrow>
     files (snd y) = files s \<and> calls (snd y) = calls s \<and> hashTable (snd y) = hashTable s \<and>
     bufPool (snd y) = bufPool s"
  let ?s1 = "advanceClock s"
  let ?d = "bufDescTable ?s1 ! clockHand ?s1"
  assume IH: "\<And>INV s pinCount y. loop INV s pinCount = Some y \<Longrightarrow> ?Q s y"
  assume body: "(if pinCount = numBufs s then Some (Inl BufferExceededException, s)
      else if \<not> valid ?d then Some (Inr (clockHand ?s1), ?s1)
      else if refbit ?d
        then loop INV (set_desc (clockHand ?s1) (?d\<lparr>refbit := False\<rparr>) ?s1) pinCount
      else if pinCnt ?d > 0 then loop INV ?s1 (pinCount + 1)
      else Some (evict INV ?s1)) = Some y"
  show "?Q s y"
  proof (cases "pinCount = numBufs s")
    case True
    then show ?thesis using body by auto
  next
    case False
    consider (inv) "\<not> valid ?d" | (ref) "valid ?d" "refbit ?d"
      | (pin) "valid ?d" "\<not> refbit ?d" "pinCnt ?d > 0"
      | (ev) "valid ?d" "\<not> refbit ?d" "\<not> pinCnt ?d > 0" by blast
    then show ?thesis
    proof cases
      case inv
      then show ?thesis using False body by auto
    next
      case ref
      then have "loop INV (set_desc (clockHand ?s1) (?d\<lparr>refbit := False\<rparr>) ?s1) pinCount = Some y"
        using False body by simp
      from IH [OF this] show ?thesis by simp
    next
      case pin
      then have "loop INV ?s1 (pinCount + 1) = Some y"
        using False body by simp
      from IH [OF this] show ?thesis by simp
    next
      case ev
      then have "y = evict INV ?s1" using False body by simp
      then show ?thesis using evict_not_BufferExceeded [of INV ?s1] by simp
    qed
  qed
qed

lemma evict_calls: "\<exists>cs. calls (snd (evict INV s)) = calls s @ cs"
  by (simp add: evict_def Let_def BufHashTbl_remove_def split: option.splits)

lemma allocBuf_loop_calls:
  assumes "allocBuf_loop INV s pinCount = Some y"
  shows "\<exists>cs. calls (snd y) = calls s @ cs"
proof (rule allocBuf_loop.raw_induct [OF _ assms])
  fix loop :: "PageId \<Rightarrow> BufMgr \<Rightarrow> nat \<Rightarrow> FrameId outcome option" and INV s pinCount y
  let ?s1 = "advanceClock s"
  let ?d = "bufDescTable ?s1 ! clockHand ?s1"
  assume IH: "\<And>INV s pinCount y. loop INV s pinCount = Some y \<Longrightarrow>
                \<exists>cs. calls (snd y) = calls s @ cs"
  assume body: "(if pinCount = numBufs s then Some (Inl BufferExceededException, s)
      else if \<not> valid ?d then Some (Inr (clockHand ?s1), ?s1)
      else if refbit ?d
        then loop INV (set_desc (clockHand ?s1) (?d\<lparr>refbit := False\<rparr>) ?s1) pinCount
      else if pinCnt ?d > 0 then loop INV ?s1 (pinCount + 1)
      else Some (evict INV ?s1)) = Some y"
  show "\<exists>cs. calls (snd y) = calls s @ cs"
  proof (cases "pinCount = numBufs s")
    case True
    then show ?thesis using body by auto
  next
    case False
    consider (inv) "\<not> valid ?d" | (ref) "valid ?d" "refbit ?d"
      | (pin) "valid ?d" "\<not> refbit ?d" "pinCnt ?d > 0"
      | (ev) "valid ?d" "\<not> refbit ?d" "\<not> pinCnt ?d > 0" by blast
    then show ?thesis
    proof cases
      case inv
      then show ?thesis using False body by auto
    next
      case ref
      then have "loop INV (set_desc (clockHand ?s1) (?d\<lparr>refbit := False\<rparr>) ?s1) pinCount = Some y"
        using False body by simp
      from IH [OF this] show ?thesis by simp
    next
      case pin
      then have "loop INV ?s1 (pinCount + 1) = Some y"
        using False body by simp
      from IH [OF this] show ?thesis by simp
    next
      case ev
      then have "y = evict INV ?s1" using False body by simp
      then show ?thesis using evict_calls [of INV ?s1] by simp
    qed
  qed
qed


text \<open>
  Claim C9 as the spec states it fails: on the one-frame manager \<open>ex_full\<close>, whose frame
  is pinned, \<open>allocPage\<close> raises \<open>BufferExceededException\<close>, and page number 5, which
  file 7 did not have before, is allocated in it afterwards.
\<close>

theorem allocPage_leaks_page_number:
  "map_option fst (allocPage 0 7 ex_full) = Some (Inl BufferExceededException) \<and>
   5 \<notin> set (map page_number (pages (files ex_full 7))) \<and>
   5 \<in> set (map page_number (pages (files (after (allocPage 0 7 ex_full)) 7)))"
  by code_simp


text \<open>
  Claim C9, amended. In \<open>allocPage(file)\<close> the first call made on a file is
  \<open>file.allocatePage()\<close>, before \<open>allocBuf\<close> looks for a frame. When \<open>allocPage\<close> then
  raises \<open>BufferExceededException\<close>, that call is the only one made: the page it
  assigned, whose number the file did not hold before, is still in the file, and nothing
  deletes it.
\<close>

theorem allocPage_BufferExceeded_keeps_page:
  assumes "allocPage INV f s = Some (r, s')"
  shows "(\<exists>cs. calls s' = calls s @ AllocatePageCall f # cs) \<and>
         (r = Inl BufferExceededException \<longrightarrow>
            calls s' = calls s @ [AllocatePageCall f] \<and>
            fresh_page_number (pages (files s f)) \<notin> page_number ` set (pages (files s f)) \<and>
            pages (files s' f) =
              pages (files s f) @
                [\<lparr>page_number = fresh_page_number (pages (files s f)), data = []\<rparr>])"
proof -
  obtain pg s1 where a: "File_allocatePage f s = (pg, s1)" by (cases "File_allocatePage f s")
  have s1: "calls s1 = calls s @ [AllocatePageCall f]"
    "pages (files s1 f) =
       pages (files s f) @ [\<lparr>page_number = fresh_page_number (pages (files s f)), data = []\<rparr>]"
    using a by (auto simp: File_allocatePage_def Let_def)
  obtain r2 s2 where b: "allocBuf_loop INV s1 0 = Some (r2, s2)"
    using assms a by (auto simp: allocPage_def allocBuf_def split: option.splits)
  have c: "calls s' = calls s2"
    using assms a b
    by (auto simp: allocPage_def allocBuf_def BufHashTbl_insert_def Let_def
          split: option.splits sum.splits)
  from allocBuf_loop_calls [OF b] obtain cs where "calls s2 = calls s1 @ cs" by auto
  then have first: "\<exists>cs. calls s' = calls s @ AllocatePageCall f # cs"
    using c s1 by simp
  have "calls s' = calls s @ [AllocatePageCall f] \<and>
        pages (files s' f) =
          pages (files s f) @ [\<lparr>page_number = fresh_page_number (pages (files s f)), data = []\<rparr>]"
    if be: "r = Inl BufferExceededException"
  proof -
    have "r2 = Inl BufferExceededException \<and> s2 = s'"
      using assms a b be
      by (auto simp: allocPage_def allocBuf_def BufHashTbl_insert_def Let_def
            split: option.splits sum.splits)
    with allocBuf_loop_BufferExceeded [OF b]
    have "files s' = files s1" "calls s' = calls s1" by simp_all
    then show ?thesis using s1 by simp
  qed
  then show ?thesis
    using first fresh_page_number_new [of "pages (files s f)"] by blast
qed

theorem allocPage_BufferExceeded_keeps_page_witness:
  "allocPage 0 7 ex_full = Some (Inl BufferExceededException, after (allocPage 0 7 ex_full)) \<and>
   calls (after (allocPage 0 7 ex_full)) = [ReadPageCall 7 1, AllocatePageCall 7] \<and>
   map page_number (pages (files (after (allocPage 0 7 ex_full)) 7)) = [1, 2, 3, 4, 5]"
proof -
  have r: "map_option fst (allocPage 0 7 ex_full) = Some (Inl BufferExceededException)"
    by code_simp
  then have h: "allocPage 0 7 ex_full = Some (Inl BufferExceededException, after (allocPage 0 7 ex_full))"
    by (cases "allocPage 0 7 ex_full") (auto simp: after_def)
  have c: "calls ex_full = [ReadPageCall 7 1]"
    "map page_number (pages (files ex_full 7)) = [1, 2, 3, 4]"
    "fresh_page_number (pages (files ex_full 7)) = 5"
    by code_simp+
  show ?thesis
    using h c allocPage_BufferExceeded_keeps_page [OF h] by simp
qed

section \<open>The invariant is kept by every operation\<close>

lemma good_new: "good INV (BufMgr_new INV bufs fs)"
  by (rule goodI)
     (simp_all add: wf_def BufMgr_new_def default_BufDesc_def BufDesc_Clear_def)

lemma good_iff:
  assumes g: "good INV s" and i: "i < numBufs s"
  shows "valid (bufDescTable s ! i) \<longleftrightarrow> hashTable s (key_of (bufDescTable s ! i)) = Some i"
proof
  assume "valid (bufDescTable s ! i)"
  from good_valid [OF g i this]
  show "hashTable s (key_of (bufDescTable s ! i)) = Some i" by (rule conjunct2)
next
  assume "hashTable s (key_of (bufDescTable s ! i)) = Some i"
  from good_hash [OF g this] show "valid (bufDescTable s ! i)" by (elim conjE)
qed

lemma good_unique:
  assumes g: "good INV s" and i: "i < numBufs s" and j: "j < numBufs s"
    and h: "valid (bufDescTable s ! i)" "valid (bufDescTable s ! j)"
      "key_of (bufDescTable s ! i) = key_of (bufDescTable s ! j)"
  shows "i = j"
proof -
  have a: "hashTable s (key_of (bufDescTable s ! i)) = Some i"
    using good_valid [OF g i h(1)] by (rule conjunct2)
  have b: "hashTable s (key_of (bufDescTable s ! j)) = Some j"
    using good_valid [OF g j h(2)] by (rule conjunct2)
  show "i = j" using a b h(3) by (metis option.inject)
qed

lemma good_dir_inv: assumes g: "good INV s" shows "dir_inv s"
  unfolding dir_inv_def using good_iff [OF g] good_unique [OF g] by blast

text \<open>Entering a page into an empty frame keeps the invariant.\<close>

lemma good_insert_Set:
  assumes g: "good INV s" and i: "i < numBufs s" and v: "\<not> valid (bufDescTable s ! i)"
    and k: "hashTable s (Some f, p) = None"
  shows "good INV (set_desc i (BufDesc_Set f p d) (s\<lparr>hashTable := (hashTable s)((Some f, p) \<mapsto> i)\<rparr>))"
    (is "good INV ?t")
proof (rule goodI)
  note len = good_len [OF g]
  have nth_i: "bufDescTable ?t ! i = BufDesc_Set f p d" using i len by simp
  have no_i: "\<And>k'. hashTable s k' \<noteq> Some i" using good_hash [OF g] v by blast
  show "wf ?t" using good_wf [OF g] by (simp add: wf_def)
  { fix j assume j: "j < numBufs ?t" "valid (bufDescTable ?t ! j)"
    show "file_ptr (bufDescTable ?t ! j) \<noteq> None \<and>
          hashTable ?t (key_of (bufDescTable ?t ! j)) = Some j"
    proof (cases "j = i")
      case True
      then show ?thesis using nth_i by (simp add: BufDesc_Set_def key_of_def)
    next
      case False
      then have vj: "valid (bufDescTable s ! j)" and jn: "j < numBufs s" using j by simp_all
      have "key_of (bufDescTable s ! j) \<noteq> (Some f, p)"
        using good_valid [OF g jn vj] k by auto
      then show ?thesis using good_valid [OF g jn vj] False by simp
    qed }
  { fix j assume j: "j < numBufs ?t" "\<not> valid (bufDescTable ?t ! j)"
    have "j \<noteq> i" using j nth_i by (auto simp: BufDesc_Set_def)
    then show "bufDescTable ?t ! j = BufDesc_Clear INV (bufDescTable ?t ! j)"
      using good_invalid [OF g, of j] j by simp }
  { fix k' j assume h: "hashTable ?t k' = Some j"
    show "j < numBufs ?t \<and> valid (bufDescTable ?t ! j) \<and> key_of (bufDescTable ?t ! j) = k'"
    proof (cases "k' = (Some f, p)")
      case True
      then have "j = i" using h by simp
      then show ?thesis using True i nth_i by (simp add: BufDesc_Set_def key_of_def)
    next
      case False
      then have h': "hashTable s k' = Some j" using h by simp
      then have "j \<noteq> i" using no_i [of k'] by blast
      then show ?thesis using good_hash [OF g h'] by simp
    qed }
qed

lemma good_calls: "good INV s \<Longrightarrow> good INV (s\<lparr>calls := c\<rparr>)"
  by (simp add: good_def wf_def)

lemma good_files: "good INV s \<Longrightarrow> good INV (s\<lparr>files := c\<rparr>)"
  by (simp add: good_def wf_def)

lemma good_bufPool: "good INV s \<Longrightarrow> good INV (s\<lparr>bufPool := (bufPool s)[i := pg]\<rparr>)"
  by (simp add: good_def wf_def)

lemma good_File_deletePage: "good INV s \<Longrightarrow> good INV (File_deletePage f p s)"
  unfolding good_def wf_def by simp

lemma good_File_allocatePage: "good INV s \<Longrightarrow> good INV (snd (File_allocatePage f s))"
  by (simp add: good_def wf_def File_allocatePage_def Let_def)

lemma unPinPage_good:
  assumes g: "good INV s" shows "good INV (snd (unPinPage f p d s))"
proof (cases "hashTable s (Some f, p)")
  case None
  then show ?thesis using g by (simp add: unPinPage_def BufHashTbl_lookup_def)
next
  case (Some fr)
  note h = good_hash [OF g Some]
  let ?s1 = "if d then set_desc fr ((bufDescTable s ! fr)\<lparr>dirty := True\<rparr>) s else s"
  have g1: "good INV ?s1"
    using good_set_desc_same [OF g, of fr "(bufDescTable s ! fr)\<lparr>dirty := True\<rparr>"] h g
    by (simp add: key_of_def)
  have v1: "valid (bufDescTable ?s1 ! fr)" "fr < numBufs ?s1"
    using h good_len [OF g] by auto
  have g2: "good INV (set_desc fr ((bufDescTable ?s1 ! fr)\<lparr>pinCnt := pinCnt (bufDescTable ?s1 ! fr) - 1\<rparr>) ?s1)"
    by (rule good_set_desc_same [OF g1 v1(2) v1(1)]) (simp_all add: v1 key_of_def)
  show ?thesis
    using Some g1 g2 unfolding unPinPage_def BufHashTbl_lookup_def Let_def
    by (simp split: if_splits)
qed

lemma disposePage_good:
  assumes g: "good INV s" shows "good INV (snd (disposePage INV f p s))"
proof (cases "hashTable s (Some f, p)")
  case None
  then show ?thesis using g
    by (simp add: disposePage_def BufHashTbl_lookup_def good_File_deletePage)
next
  case (Some fr)
  note h = good_hash [OF g Some]
  have "good INV (set_desc fr (BufDesc_Clear INV (bufDescTable s ! fr))
                    (s\<lparr>hashTable := (hashTable s)(key_of (bufDescTable s ! fr) := None)\<rparr>))"
    using good_remove_clear [OF g, of fr] h by simp
  then show ?thesis using Some h
    by (simp add: disposePage_def BufHashTbl_lookup_def BufHashTbl_remove_def
          good_File_deletePage)
qed


text \<open>One iteration of \<open>flushFile\<close> on a valid frame that is neither pinned nor bad.\<close>

lemma flush_frame_ok:
  assumes g: "good INV s" and i: "i < numBufs s" and v: "valid (bufDescTable s ! i)"
    and np: "\<not> pinCnt (bufDescTable s ! i) > 0" and nb: "pageNo (bufDescTable s ! i) \<noteq> INV"
  shows "\<exists>t. flush_frame INV i s = (Inr (), t) \<and> good INV t \<and> numBufs t = numBufs s \<and>
           bufDescTable t = (bufDescTable s)[i := BufDesc_Clear INV (bufDescTable s ! i)] \<and>
           hashTable t = (hashTable s)(key_of (bufDescTable s ! i) := None) \<and>
           bufPool t = bufPool s \<and>
           calls t = calls s @ (if dirty (bufDescTable s ! i)
                                then [WritePageCall (the (file_ptr (bufDescTable s ! i))) (bufPool s ! i)]
                                else []) \<and>
           (\<forall>h. filename (files t h) = filename (files s h))"
proof -
  let ?d = "bufDescTable s ! i"
  note len = good_len [OF g]
  define s1 where "s1 = (if dirty ?d
                      then set_desc i (?d\<lparr>dirty := False\<rparr>)
                             (File_writePage (the (file_ptr ?d)) (bufPool s ! i) s)
                      else s)"
  have g1: "good INV s1"
  proof (cases "dirty ?d")
    case True
    have "good INV (set_desc i (?d\<lparr>dirty := False\<rparr>)
             (File_writePage (the (file_ptr ?d)) (bufPool s ! i) s))"
      by (rule good_set_desc_same [OF good_File_writePage [OF g]])
         (simp_all add: i v key_of_def)
    then show ?thesis using True by (simp add: s1_def)
  next
    case False
    then show ?thesis using g by (simp add: s1_def)
  qed
  have s1: "numBufs s1 = numBufs s" "hashTable s1 = hashTable s" "bufPool s1 = bufPool s"
    "key_of (bufDescTable s1 ! i) = key_of ?d" "valid (bufDescTable s1 ! i)"
    "BufDesc_Clear INV (bufDescTable s1 ! i) = BufDesc_Clear INV ?d"
    "(bufDescTable s1)[i := x] = (bufDescTable s)[i := x]" for x
    using i len v by (auto simp: s1_def key_of_def BufDesc_Clear_def)
  have c1: "calls s1 = calls s @ (if dirty ?d
              then [WritePageCall (the (file_ptr ?d)) (bufPool s ! i)] else [])"
    "filename (files s1 h) = filename (files s h)" for h
    by (simp_all add: s1_def)
  have h1: "hashTable s1 (key_of (bufDescTable s1 ! i)) = Some i"
    using good_valid [OF g1, of i] i s1 by simp
  let ?t = "set_desc i (BufDesc_Clear INV (bufDescTable s1 ! i))
              (s1\<lparr>hashTable := (hashTable s1)(key_of (bufDescTable s1 ! i) := None)\<rparr>)"
  have ff: "flush_frame INV i s = (Inr (), ?t)"
    using np nb h1
    unfolding flush_frame_def Let_def s1_def [symmetric] BufHashTbl_remove_def key_of_def
    by simp
  have gt: "good INV ?t"
    using good_remove_clear [OF g1, of i "bufDescTable s1 ! i"] i s1 by simp
  show ?thesis
    using ff gt s1 c1 by simp
qed

lemma flush_frame_good:
  assumes g: "good INV s" and i: "i < numBufs s"
  shows "good INV (snd (flush_frame INV i s)) \<and> numBufs (snd (flush_frame INV i s)) = numBufs s"
proof (cases "pinCnt (bufDescTable s ! i) > 0 \<or> pageNo (bufDescTable s ! i) = INV")
  case True
  then show ?thesis using g by (auto simp: flush_frame_def Let_def)
next
  case False
  have v: "valid (bufDescTable s ! i)"
  proof (rule ccontr)
    assume "\<not> valid (bufDescTable s ! i)"
    from good_invalid [OF g i this]
    have "pageNo (bufDescTable s ! i) = pageNo (BufDesc_Clear INV (bufDescTable s ! i))"
      by simp
    then have "pageNo (bufDescTable s ! i) = INV" by (simp add: BufDesc_Clear_def)
    then show False using False by simp
  qed
  from flush_frame_ok [OF g i v] False show ?thesis by auto
qed

lemma flushFile_loop_good:
  assumes "good INV s" "\<forall>j\<in>set js. j < numBufs s"
  shows "good INV (snd (flushFile_loop INV fp js s)) \<and>
         numBufs (snd (flushFile_loop INV fp js s)) = numBufs s"
  using assms
proof (induction js arbitrary: s)
  case Nil
  then show ?case by simp
next
  case (Cons i js)
  show ?case
  proof (cases "file_ptr (bufDescTable s ! i) = fp")
    case False
    then show ?thesis using Cons by simp
  next
    case True
    obtain r t where ff: "flush_frame INV i s = (r, t)" by (cases "flush_frame INV i s")
    have gt: "good INV t" "numBufs t = numBufs s"
      using flush_frame_good [OF Cons.prems(1), of i] Cons.prems(2) ff by simp_all
    show ?thesis
    proof (cases r)
      case (Inl e)
      then show ?thesis using True ff gt by simp
    next
      case (Inr u)
      have "good INV (snd (flushFile_loop INV fp js t)) \<and>
            numBufs (snd (flushFile_loop INV fp js t)) = numBufs t"
        by (rule Cons.IH [OF gt(1)]) (use Cons.prems(2) gt(2) in simp)
      then show ?thesis using True ff Inr gt by simp
    qed
  qed
qed

lemma flushFile_good: "good INV s \<Longrightarrow> good INV (snd (flushFile INV fp s))"
  using flushFile_loop_good [of INV s "[0..<numBufs s]" fp] by (simp add: flushFile_def)


text \<open>
  What \<open>readPage\<close> does on a miss, step by step: \<open>allocBuf\<close> returns, with an exception
  or with an empty frame; the file is read; the page is entered.
\<close>

lemma allocBuf_good:
  assumes g: "good INV s"
  shows "\<exists>r s1. allocBuf INV s = Some (r, s1) \<and> good INV s1 \<and> numBufs s1 = numBufs s \<and>
           (\<forall>k. hashTable s k = None \<longrightarrow> hashTable s1 k = None) \<and>
           (case r of Inl e \<Rightarrow> e = BufferExceededException
                    | Inr fr \<Rightarrow> fr < numBufs s \<and> \<not> valid (bufDescTable s1 ! fr))"
  unfolding allocBuf_def by (rule allocBuf_loop_good [OF g]) simp

lemma readPage_miss:
  assumes g: "good INV s" and k: "hashTable s (Some f, p) = None"
  shows "\<exists>r s1. allocBuf INV s = Some (r, s1) \<and> good INV s1 \<and> numBufs s1 = numBufs s \<and>
           hashTable s1 (Some f, p) = None \<and>
           (case r of
              Inl e \<Rightarrow> readPage INV f p s = Some (Inl e, s1)
            | Inr fr \<Rightarrow>
                fr < numBufs s \<and> \<not> valid (bufDescTable s1 ! fr) \<and>
                (case find (\<lambda>pg. page_number pg = p) (pages (files s1 f)) of
                   None \<Rightarrow>
                     readPage INV f p s =
                       Some (Inl InvalidPageException, s1\<lparr>calls := calls s1 @ [ReadPageCall f p]\<rparr>)
                 | Some pg \<Rightarrow>
                     readPage INV f p s =
                       Some (Inr fr,
                             set_desc fr (BufDesc_Set f p (bufDescTable s1 ! fr))
                               (s1\<lparr>calls := calls s1 @ [ReadPageCall f p],
                                   bufPool := (bufPool s1)[fr := pg],
                                   hashTable := (hashTable s1)((Some f, p) \<mapsto> fr)\<rparr>))))"
proof -
  from allocBuf_good [OF g] obtain r s1 where
    a: "allocBuf INV s = Some (r, s1)" "good INV s1" "numBufs s1 = numBufs s"
      "\<forall>k. hashTable s k = None \<longrightarrow> hashTable s1 k = None"
      "case r of Inl e \<Rightarrow> e = BufferExceededException
               | Inr fr \<Rightarrow> fr < numBufs s \<and> \<not> valid (bufDescTable s1 ! fr)"
    by blast
  have k1: "hashTable s1 (Some f, p) = None" using a(4) k by blast
  have "case r of
          Inl e \<Rightarrow> readPage INV f p s = Some (Inl e, s1)
        | Inr fr \<Rightarrow>
            fr < numBufs s \<and> \<not> valid (bufDescTable s1 ! fr) \<and>
            (case find (\<lambda>pg. page_number pg = p) (pages (files s1 f)) of
               None \<Rightarrow>
                 readPage INV f p s =
                   Some (Inl InvalidPageException, s1\<lparr>calls := calls s1 @ [ReadPageCall f p]\<rparr>)
             | Some pg \<Rightarrow>
                 readPage INV f p s =
                   Some (Inr fr,
                         set_desc fr (BufDesc_Set f p (bufDescTable s1 ! fr))
                           (s1\<lparr>calls := calls s1 @ [ReadPageCall f p],
                               bufPool := (bufPool s1)[fr := pg],
                               hashTable := (hashTable s1)((Some f, p) \<mapsto> fr)\<rparr>)))"
    using a(1) a(5) k k1
    by (auto simp: readPage_def BufHashTbl_lookup_def BufHashTbl_insert_def File_readPage_def
          Let_def set_desc_def split: sum.splits option.splits)
  then show ?thesis using a k1 by blast
qed

lemma readPage_good:
  assumes g: "good INV s"
  shows "\<exists>r s'. readPage INV f p s = Some (r, s') \<and> good INV s'"
proof (cases "hashTable s (Some f, p)")
  case (Some fr)
  note h = good_hash [OF g Some]
  have "good INV (set_desc fr ((bufDescTable s ! fr)
                    \<lparr>pinCnt := wrap_int32 (pinCnt (bufDescTable s ! fr) + 1),
                     refbit := True\<rparr>) s)"
    by (rule good_set_desc_same [OF g]) (simp_all add: h key_of_def)
  then show ?thesis using Some by (simp add: readPage_def BufHashTbl_lookup_def)
next
  case None
  from readPage_miss [OF g None] obtain r s1 where
    a: "allocBuf INV s = Some (r, s1)" "good INV s1" "numBufs s1 = numBufs s"
      "hashTable s1 (Some f, p) = None"
    and c: "case r of
          Inl e \<Rightarrow> readPage INV f p s = Some (Inl e, s1)
        | Inr fr \<Rightarrow>
            fr < numBufs s \<and> \<not> valid (bufDescTable s1 ! fr) \<and>
            (case find (\<lambda>pg. page_number pg = p) (pages (files s1 f)) of
               None \<Rightarrow>
                 readPage INV f p s =
                   Some (Inl InvalidPageException, s1\<lparr>calls := calls s1 @ [ReadPageCall f p]\<rparr>)
             | Some pg \<Rightarrow>
                 readPage INV f p s =
                   Some (Inr fr,
                         set_desc fr (BufDesc_Set f p (bufDescTable s1 ! fr))
                           (s1\<lparr>calls := calls s1 @ [ReadPageCall f p],
                               bufPool := (bufPool s1)[fr := pg],
                               hashTable := (hashTable s1)((Some f, p) \<mapsto> fr)\<rparr>)))"
    by blast
  show ?thesis
  proof (cases r)
    case (Inl e)
    then show ?thesis using c a(2) by simp
  next
    case (Inr fr)
    then have fr: "fr < numBufs s" "\<not> valid (bufDescTable s1 ! fr)" using c by simp_all
    show ?thesis
    proof (cases "find (\<lambda>pg. page_number pg = p) (pages (files s1 f))")
      case None
      then show ?thesis using c Inr good_calls [OF a(2)] by simp
    next
      case (Some pg)
      let ?s2 = "s1\<lparr>calls := calls s1 @ [ReadPageCall f p], bufPool := (bufPool s1)[fr := pg]\<rparr>"
      have g2: "good INV ?s2"
        using good_bufPool [OF good_calls [OF a(2)], of "calls s1 @ [ReadPageCall f p]" fr pg]
        by simp
      have "good INV (set_desc fr (BufDesc_Set f p (bufDescTable s1 ! fr))
                        (?s2\<lparr>hashTable := (hashTable ?s2)((Some f, p) \<mapsto> fr)\<rparr>))"
        by (rule good_insert_Set [OF g2]) (simp_all add: fr a)
      then show ?thesis using c Inr Some by simp
    qed
  qed
qed


lemma allocPage_good:
  assumes g: "good INV s"
  shows "\<exists>r s'. allocPage INV f s = Some (r, s') \<and> good INV s'"
proof -
  obtain pg s1 where ap: "File_allocatePage f s = (pg, s1)" by (cases "File_allocatePage f s")
  have g1: "good INV s1" using good_File_allocatePage [OF g, of f] ap by simp
  from allocBuf_good [OF g1] obtain r s2 where
    a: "allocBuf INV s1 = Some (r, s2)" "good INV s2" "numBufs s2 = numBufs s1"
      "case r of Inl e \<Rightarrow> e = BufferExceededException
               | Inr fr \<Rightarrow> fr < numBufs s1 \<and> \<not> valid (bufDescTable s2 ! fr)"
    by blast
  show ?thesis
  proof (cases r)
    case (Inl e)
    then show ?thesis using ap a by (simp add: allocPage_def)
  next
    case (Inr fr)
    then have fr: "fr < numBufs s2" "\<not> valid (bufDescTable s2 ! fr)" using a by simp_all
    show ?thesis
    proof (cases "hashTable s2 (Some f, page_number pg)")
      case (Some x)
      then show ?thesis using ap a Inr by (simp add: allocPage_def BufHashTbl_insert_def)
    next
      case None
      let ?s4 = "set_desc fr (BufDesc_Set f (page_number pg) (bufDescTable s2 ! fr))
                   (s2\<lparr>hashTable := (hashTable s2)((Some f, page_number pg) \<mapsto> fr)\<rparr>)"
      have "good INV ?s4" by (rule good_insert_Set [OF a(2) fr None])
      from good_bufPool [OF this, of fr pg]
      show ?thesis using ap a Inr None
        by (simp add: allocPage_def BufHashTbl_insert_def Let_def)
    qed
  qed
qed

lemma reachable_good: "reachable INV s \<Longrightarrow> good INV s"
proof (induction rule: reachable.induct)
  case (new bufs fs)
  show ?case by (rule good_new)
next
  case (readPage s f p r s')
  from readPage_good [OF readPage.IH, of f p] readPage.hyps(2) show ?case by auto
next
  case (allocPage s f r2 s')
  from allocPage_good [OF allocPage.IH, of f] allocPage.hyps(2) show ?case by auto
next
  case (unPinPage s f p d r3 s')
  from unPinPage_good [OF unPinPage.IH, of f p d] unPinPage.hyps(2) show ?case by simp
next
  case (flushFile s fp r3 s')
  from flushFile_good [OF flushFile.IH, of fp] flushFile.hyps(2) show ?case by simp
next
  case (disposePage s f p r3 s')
  from disposePage_good [OF disposePage.IH, of f p] disposePage.hyps(2) show ?case by simp
next
  case (allocBuf s r s')
  from allocBuf_good [OF allocBuf.IH] allocBuf.hyps(2) show ?case by auto
next
  case (client_write s i pg)
  then show ?case by (simp add: good_bufPool)
next
  case (file_change s fs)
  then show ?case by (simp add: good_files)
qed


lemma after_step:
  "map_option fst r = Some x \<Longrightarrow> r = Some (x, after r)"
  by (cases r) (auto simp: after_def)

lemma ex_pinned_reachable: "reachable 0 ex_pinned"
proof -
  have "map_option fst (readPage 0 7 1 (BufMgr_new 0 2 ex_files)) = Some (Inr 0)" by code_simp
  from reachable.readPage [OF reachable.new after_step [OF this]]
  show ?thesis by (simp add: ex_pinned_def)
qed

lemma ex_unpinned_reachable: "reachable 0 ex_unpinned"
  unfolding ex_unpinned_def
  by (rule reachable.unPinPage [OF ex_pinned_reachable]) (rule surjective_pairing)

lemma ex_spurious_reachable: "reachable 0 ex_spurious"
proof -
  let ?s2 = "after (readPage 0 7 2 ex_pinned)"
  let ?s3 = "snd (unPinPage 7 2 False ?s2)"
  let ?s4 = "after (readPage 0 7 3 ?s3)"
  have e2: "map_option fst (readPage 0 7 2 ex_pinned) = Some (Inr 1)" by code_simp
  have e4: "map_option fst (readPage 0 7 3 ?s3) = Some (Inr 1)" by code_simp
  have r2: "reachable 0 ?s2"
    by (rule reachable.readPage [OF ex_pinned_reachable after_step [OF e2]])
  have r3: "reachable 0 ?s3" by (rule reachable.unPinPage [OF r2 surjective_pairing])
  have r4: "reachable 0 ?s4" by (rule reachable.readPage [OF r3 after_step [OF e4]])
  show ?thesis
    unfolding ex_spurious_def by (rule reachable.unPinPage [OF r4 surjective_pairing])
qed


text \<open>
  Claim C2. In every state that the constructor and the operations can produce, a frame
  is valid if and only if the directory maps its (file, page number) pair to that frame,
  and no two valid frames hold the same pair; and from such a state \<open>readPage\<close>,
  \<open>allocPage\<close>, \<open>unPinPage\<close>, \<open>flushFile\<close>, \<open>disposePage\<close> and \<open>allocBuf\<close> all come
  back, normally or with an exception, to a state in which this holds again.
\<close>

theorem reachable_dir_inv:
  assumes "reachable INV s"
  shows "dir_inv s \<and>
         (\<forall>f p. \<exists>r s'. readPage INV f p s = Some (r, s') \<and> dir_inv s') \<and>
         (\<forall>f. \<exists>r s'. allocPage INV f s = Some (r, s') \<and> dir_inv s') \<and>
         (\<forall>f p d. dir_inv (snd (unPinPage f p d s))) \<and>
         (\<forall>fp. dir_inv (snd (flushFile INV fp s))) \<and>
         (\<forall>f p. dir_inv (snd (disposePage INV f p s))) \<and>
         (\<exists>r s'. allocBuf INV s = Some (r, s') \<and> dir_inv s')"
proof -
  have g: "good INV s" by (rule reachable_good [OF assms])
  have "\<exists>r s'. readPage INV f p s = Some (r, s') \<and> dir_inv s'" for f p
    using readPage_good [OF g, of f p] good_dir_inv by blast
  moreover have "\<exists>r s'. allocPage INV f s = Some (r, s') \<and> dir_inv s'" for f
    using allocPage_good [OF g, of f] good_dir_inv by blast
  moreover have "dir_inv (snd (unPinPage f p d s))" for f p d
    by (rule good_dir_inv [OF unPinPage_good [OF g]])
  moreover have "dir_inv (snd (flushFile INV fp s))" for fp
    by (rule good_dir_inv [OF flushFile_good [OF g]])
  moreover have "dir_inv (snd (disposePage INV f p s))" for f p
    by (rule good_dir_inv [OF disposePage_good [OF g]])
  moreover have "\<exists>r s'. allocBuf INV s = Some (r, s') \<and> dir_inv s'"
    using allocBuf_good [OF g] good_dir_inv by blast
  ultimately show ?thesis using good_dir_inv [OF g] by blast
qed

theorem reachable_dir_inv_witness:
  "reachable 0 ex_spurious \<and> dir_inv ex_spurious \<and>
   dir_inv (snd (flushFile 0 (Some 7) ex_spurious)) \<and>
   dir_inv (snd (disposePage 0 7 1 ex_spurious))"
  using ex_spurious_reachable reachable_dir_inv [OF ex_spurious_reachable] by blast

section \<open>\<open>readPage\<close>\<close>

lemma ex_pinned_allocBuf_fst: "map_option fst (allocBuf 0 ex_pinned) = Some (Inr 1)"
  by code_simp

lemma ex_pinned_allocBuf:
  "allocBuf 0 ex_pinned = Some (Inr 1, after (allocBuf 0 ex_pinned))"
  by (rule after_step [OF ex_pinned_allocBuf_fst])


lemma wrap_int32_id: "- 2147483648 \<le> x \<Longrightarrow> x < 2147483648 \<Longrightarrow> wrap_int32 x = x"
  by (simp add: wrap_int32_def)

text \<open>
  A page can be pinned \<open>2^31 - 1\<close> times: each hit of \<open>readPage\<close> on \<open>pinned_n k\<close>
  leads to \<open>pinned_n (k + 1)\<close>.
\<close>

lemma ex_pinned_frame0:
  "bufDescTable ex_pinned ! 0 =
     \<lparr>file_ptr = Some 7, pageNo = 1, frameNo = 0, pinCnt = 1, dirty = False, valid = True,
      refbit = True\<rparr>"
  "hashTable ex_pinned (Some 7, 1) = Some 0" "0 < length (bufDescTable ex_pinned)"
  by code_simp+

lemma pinned_n_1: "pinned_n 1 = ex_pinned"
proof -
  have "(bufDescTable ex_pinned ! 0)\<lparr>pinCnt := 1\<rparr> = bufDescTable ex_pinned ! 0"
    by (simp add: ex_pinned_frame0(1))
  then show ?thesis by (simp add: pinned_n_def set_desc_def)
qed

lemma pinned_n_hit:
  assumes "1 \<le> k" "k < 2147483647"
  shows "readPage 0 7 1 (pinned_n k) = Some (Inr 0, pinned_n (k + 1))"
  using assms ex_pinned_frame0(2,3)
  by (simp add: readPage_def BufHashTbl_lookup_def pinned_n_def set_desc_def
        ex_pinned_frame0(1) wrap_int32_id)

lemma pinned_n_reachable: "n \<le> 2147483646 \<Longrightarrow> reachable 0 (pinned_n (1 + int n))"
proof (induction n)
  case 0
  show ?case using ex_pinned_reachable by (simp add: pinned_n_1)
next
  case (Suc n)
  have r: "reachable 0 (pinned_n (1 + int n))" using Suc by simp
  have "readPage 0 7 1 (pinned_n (1 + int n)) = Some (Inr 0, pinned_n (1 + int n + 1))"
    by (rule pinned_n_hit) (use Suc.prems in simp_all)
  from reachable.readPage [OF r this] show ?case by (simp add: add.commute add.left_commute)
qed

lemma ex_max_pins_reachable: "reachable 0 ex_max_pins"
  using pinned_n_reachable [of 2147483646] by (simp add: ex_max_pins_def)

text \<open>
  Claim C3 as the spec states it fails on a hit when the frame's pin count is the largest
  \<open>int\<close>: in \<open>ex_max_pins\<close>, a state reached from the constructor by \<open>readPage\<close> alone,
  page 1 of file 7 is resident with \<open>pinCnt = 2^31 - 1\<close>; \<open>readPage\<close> hits, and the pin
  count it leaves is \<open>- 2^31\<close>, not one more.
\<close>

theorem readPage_hit_overflow:
  "reachable 0 ex_max_pins \<and>
   hashTable ex_max_pins (Some 7, 1) = Some 0 \<and>
   pinCnt (bufDescTable ex_max_pins ! 0) = 2147483647 \<and>
   map_option fst (readPage 0 7 1 ex_max_pins) = Some (Inr 0) \<and>
   pinCnt (bufDescTable (after (readPage 0 7 1 ex_max_pins)) ! 0) = - 2147483648 \<and>
   pinCnt (bufDescTable (after (readPage 0 7 1 ex_max_pins)) ! 0) \<noteq>
     pinCnt (bufDescTable ex_max_pins ! 0) + 1"
proof -
  have "hashTable ex_max_pins (Some 7, 1) = Some 0"
    "pinCnt (bufDescTable ex_max_pins ! 0) = 2147483647"
    "map_option fst (readPage 0 7 1 ex_max_pins) = Some (Inr 0)"
    "pinCnt (bufDescTable (after (readPage 0 7 1 ex_max_pins)) ! 0) = - 2147483648"
    "pinCnt (bufDescTable (after (readPage 0 7 1 ex_max_pins)) ! 0) \<noteq>
       pinCnt (bufDescTable ex_max_pins ! 0) + 1"
    by code_simp+
  with ex_max_pins_reachable show ?thesis by blast
qed

text \<open>
  Claim C3, amended. In a state that satisfies the invariant, \<open>readPage(file, pageNo)\<close> on
  a page that the directory holds returns the index of the page's pool slot; the only
  change is in that frame's descriptor, whose reference bit is set: the other frames, the
  directory, the pool and the sequence of file calls are as before, so nothing was
  loaded. When the frame's pin count is below the largest \<open>int\<close>, \<open>2^31 - 1\<close>, it is one
  higher afterwards. On a miss, when \<open>allocBuf\<close> supplies frame \<open>fr\<close> and
  \<open>file.readPage(pageNo)\<close> returns the page \<open>pg\<close>, \<open>readPage\<close> returns \<open>fr\<close>; the file
  was read once, pool slot \<open>fr\<close> holds \<open>pg\<close>, the directory maps (file, pageNo) to
  \<open>fr\<close>, and the descriptor of \<open>fr\<close> is the result of \<open>Set(file, pageNo)\<close>: valid,
  \<open>pinCnt = 1\<close>, not dirty, reference bit set.
\<close>

theorem readPage_hit_and_miss:
  assumes g: "good INV s"
  shows "(\<forall>fr. hashTable s (Some f, p) = Some fr \<longrightarrow>
            map_option fst (readPage INV f p s) = Some (Inr fr) \<and>
            refbit (bufDescTable (after (readPage INV f p s)) ! fr) \<and>
            (\<forall>j. j \<noteq> fr \<longrightarrow>
               bufDescTable (after (readPage INV f p s)) ! j = bufDescTable s ! j) \<and>
            hashTable (after (readPage INV f p s)) = hashTable s \<and>
            bufPool (after (readPage INV f p s)) = bufPool s \<and>
            calls (after (readPage INV f p s)) = calls s \<and>
            (- 2147483648 \<le> pinCnt (bufDescTable s ! fr) \<and>
             pinCnt (bufDescTable s ! fr) < 2147483647 \<longrightarrow>
               pinCnt (bufDescTable (after (readPage INV f p s)) ! fr) =
                 pinCnt (bufDescTable s ! fr) + 1 \<and>
               readPage INV f p s =
                 Some (Inr fr,
                       set_desc fr ((bufDescTable s ! fr)
                         \<lparr>pinCnt := pinCnt (bufDescTable s ! fr) + 1, refbit := True\<rparr>) s))) \<and>
         (\<forall>fr s1 pg.
            hashTable s (Some f, p) = None \<and> allocBuf INV s = Some (Inr fr, s1) \<and>
            File_readPage f p s1 = (Inr pg, s1\<lparr>calls := calls s1 @ [ReadPageCall f p]\<rparr>) \<longrightarrow>
            (\<exists>s'. readPage INV f p s = Some (Inr fr, s') \<and>
               calls s' = calls s1 @ [ReadPageCall f p] \<and>
               bufPool s' = (bufPool s1)[fr := pg] \<and> bufPool s' ! fr = pg \<and>
               hashTable s' = (hashTable s1)((Some f, p) \<mapsto> fr) \<and>
               bufDescTable s' = (bufDescTable s1)[fr := BufDesc_Set f p (bufDescTable s1 ! fr)] \<and>
               file_ptr (bufDescTable s' ! fr) = Some f \<and> pageNo (bufDescTable s' ! fr) = p \<and>
               valid (bufDescTable s' ! fr) \<and> pinCnt (bufDescTable s' ! fr) = 1 \<and>
               \<not> dirty (bufDescTable s' ! fr) \<and> refbit (bufDescTable s' ! fr)))"
proof -
  have hit:
"map_option fst (readPage INV f p s) = Some (Inr fr) \<and>
      refbit (bufDescTable (after (readPage INV f p s)) ! fr) \<and>
      (\<forall>j. j \<noteq> fr \<longrightarrow>
         bufDescTable (after (readPage INV f p s)) ! j = bufDescTable s ! j) \<and>
      hashTable (after (readPage INV f p s)) = hashTable s \<and>
      bufPool (after (readPage INV f p s)) = bufPool s \<and>
      calls (after (readPage INV f p s)) = calls s \<and>
      (- 2147483648 \<le> pinCnt (bufDescTable s ! fr) \<and>
       pinCnt (bufDescTable s ! fr) < 2147483647 \<longrightarrow>
         pinCnt (bufDescTable (after (readPage INV f p s)) ! fr) =
           pinCnt (bufDescTable s ! fr) + 1 \<and>
         readPage INV f p s =
           Some (Inr fr,
                 set_desc fr ((bufDescTable s ! fr)
                   \<lparr>pinCnt := pinCnt (bufDescTable s ! fr) + 1, refbit := True\<rparr>) s))"
    if h: "hashTable s (Some f, p) = Some fr" for fr
  proof -
    let ?d = "bufDescTable s ! fr"
    let ?s' = "set_desc fr (?d\<lparr>pinCnt := wrap_int32 (pinCnt ?d + 1), refbit := True\<rparr>) s"
    have fr: "fr < length (bufDescTable s)" using good_hash [OF g h] good_len [OF g] by simp
    have rp: "readPage INV f p s = Some (Inr fr, ?s')"
      using h by (simp add: readPage_def BufHashTbl_lookup_def)
    have af: "after (readPage INV f p s) = ?s'" by (simp add: rp after_def)
    have 1: "map_option fst (readPage INV f p s) = Some (Inr fr)" by (simp add: rp)
    have 2: "refbit (bufDescTable (after (readPage INV f p s)) ! fr)"
      using fr by (simp add: af)
    have 3: "\<forall>j. j \<noteq> fr \<longrightarrow>
               bufDescTable (after (readPage INV f p s)) ! j = bufDescTable s ! j"
      by (simp add: af)
    have 4: "hashTable (after (readPage INV f p s)) = hashTable s"
      "bufPool (after (readPage INV f p s)) = bufPool s"
      "calls (after (readPage INV f p s)) = calls s"
      by (simp_all add: af)
    have 5: "- 2147483648 \<le> pinCnt ?d \<and> pinCnt ?d < 2147483647 \<longrightarrow>
               pinCnt (bufDescTable (after (readPage INV f p s)) ! fr) = pinCnt ?d + 1 \<and>
               readPage INV f p s =
                 Some (Inr fr, set_desc fr (?d\<lparr>pinCnt := pinCnt ?d + 1, refbit := True\<rparr>) s)"
    proof
      assume b: "- 2147483648 \<le> pinCnt ?d \<and> pinCnt ?d < 2147483647"
      then have w: "wrap_int32 (pinCnt ?d + 1) = pinCnt ?d + 1"
        by (intro wrap_int32_id) simp_all
      show "pinCnt (bufDescTable (after (readPage INV f p s)) ! fr) = pinCnt ?d + 1 \<and>
               readPage INV f p s =
                 Some (Inr fr, set_desc fr (?d\<lparr>pinCnt := pinCnt ?d + 1, refbit := True\<rparr>) s)"
        unfolding af unfolding rp using fr by (simp add: w)
    qed
    show ?thesis
      by (intro conjI) (fact 1 2 3 4 5)+
  qed
  have miss: "\<exists>s'. readPage INV f p s = Some (Inr fr, s') \<and>
               calls s' = calls s1 @ [ReadPageCall f p] \<and>
               bufPool s' = (bufPool s1)[fr := pg] \<and> bufPool s' ! fr = pg \<and>
               hashTable s' = (hashTable s1)((Some f, p) \<mapsto> fr) \<and>
               bufDescTable s' = (bufDescTable s1)[fr := BufDesc_Set f p (bufDescTable s1 ! fr)] \<and>
               file_ptr (bufDescTable s' ! fr) = Some f \<and> pageNo (bufDescTable s' ! fr) = p \<and>
               valid (bufDescTable s' ! fr) \<and> pinCnt (bufDescTable s' ! fr) = 1 \<and>
               \<not> dirty (bufDescTable s' ! fr) \<and> refbit (bufDescTable s' ! fr)"
    if k: "hashTable s (Some f, p) = None" and ab: "allocBuf INV s = Some (Inr fr, s1)"
      and fr: "File_readPage f p s1 = (Inr pg, s1\<lparr>calls := calls s1 @ [ReadPageCall f p]\<rparr>)"
    for fr s1 pg
  proof -
    from allocBuf_good [OF g] ab
    have s1: "good INV s1" "numBufs s1 = numBufs s" "fr < numBufs s"
      "hashTable s1 (Some f, p) = None"
      using k by auto
    have len: "fr < length (bufDescTable s1)" "fr < length (bufPool s1)"
      using s1 good_wf [OF s1(1)] by (auto simp: wf_def)
    let ?s' = "set_desc fr (BufDesc_Set f p (bufDescTable s1 ! fr))
                 (s1\<lparr>calls := calls s1 @ [ReadPageCall f p],
                     bufPool := (bufPool s1)[fr := pg],
                     hashTable := (hashTable s1)((Some f, p) \<mapsto> fr)\<rparr>)"
    have rp: "readPage INV f p s = Some (Inr fr, ?s')"
      using k ab fr s1(4)
      by (simp add: readPage_def BufHashTbl_lookup_def BufHashTbl_insert_def Let_def set_desc_def)
    have "calls ?s' = calls s1 @ [ReadPageCall f p]"
      "bufPool ?s' = (bufPool s1)[fr := pg]" "bufPool ?s' ! fr = pg"
      "hashTable ?s' = (hashTable s1)((Some f, p) \<mapsto> fr)"
      "bufDescTable ?s' = (bufDescTable s1)[fr := BufDesc_Set f p (bufDescTable s1 ! fr)]"
      "file_ptr (bufDescTable ?s' ! fr) = Some f" "pageNo (bufDescTable ?s' ! fr) = p"
      "valid (bufDescTable ?s' ! fr)" "pinCnt (bufDescTable ?s' ! fr) = 1"
      "\<not> dirty (bufDescTable ?s' ! fr)" "refbit (bufDescTable ?s' ! fr)"
      using len by (simp_all add: BufDesc_Set_def)
    with rp show ?thesis by blast
  qed
  show ?thesis
  proof (rule conjI)
    show "\<forall>fr. hashTable s (Some f, p) = Some fr \<longrightarrow>
            map_option fst (readPage INV f p s) = Some (Inr fr) \<and>
            refbit (bufDescTable (after (readPage INV f p s)) ! fr) \<and>
            (\<forall>j. j \<noteq> fr \<longrightarrow>
               bufDescTable (after (readPage INV f p s)) ! j = bufDescTable s ! j) \<and>
            hashTable (after (readPage INV f p s)) = hashTable s \<and>
            bufPool (after (readPage INV f p s)) = bufPool s \<and>
            calls (after (readPage INV f p s)) = calls s \<and>
            (- 2147483648 \<le> pinCnt (bufDescTable s ! fr) \<and>
             pinCnt (bufDescTable s ! fr) < 2147483647 \<longrightarrow>
               pinCnt (bufDescTable (after (readPage INV f p s)) ! fr) =
                 pinCnt (bufDescTable s ! fr) + 1 \<and>
               readPage INV f p s =
                 Some (Inr fr,
                       set_desc fr ((bufDescTable s ! fr)
                         \<lparr>pinCnt := pinCnt (bufDescTable s ! fr) + 1, refbit := True\<rparr>) s))"
      using hit by blast
  next
    show "\<forall>fr s1 pg.
            hashTable s (Some f, p) = None \<and> allocBuf INV s = Some (Inr fr, s1) \<and>
            File_readPage f p s1 = (Inr pg, s1\<lparr>calls := calls s1 @ [ReadPageCall f p]\<rparr>) \<longrightarrow>
            (\<exists>s'. readPage INV f p s = Some (Inr fr, s') \<and>
               calls s' = calls s1 @ [ReadPageCall f p] \<and>
               bufPool s' = (bufPool s1)[fr := pg] \<and> bufPool s' ! fr = pg \<and>
               hashTable s' = (hashTable s1)((Some f, p) \<mapsto> fr) \<and>
               bufDescTable s' = (bufDescTable s1)[fr := BufDesc_Set f p (bufDescTable s1 ! fr)] \<and>
               file_ptr (bufDescTable s' ! fr) = Some f \<and> pageNo (bufDescTable s' ! fr) = p \<and>
               valid (bufDescTable s' ! fr) \<and> pinCnt (bufDescTable s' ! fr) = 1 \<and>
               \<not> dirty (bufDescTable s' ! fr) \<and> refbit (bufDescTable s' ! fr))"
      using miss by blast
  qed
qed

theorem readPage_hit_and_miss_witness:
  "good 0 ex_pinned \<and>
   hashTable ex_pinned (Some 7, 1) = Some 0 \<and>
   pinCnt (bufDescTable ex_pinned ! 0) = 1 \<and>
   - 2147483648 \<le> pinCnt (bufDescTable ex_pinned ! 0) \<and>
   pinCnt (bufDescTable ex_pinned ! 0) < 2147483647 \<and>
   map_option fst (readPage 0 7 1 ex_pinned) = Some (Inr 0) \<and>
   refbit (bufDescTable (after (readPage 0 7 1 ex_pinned)) ! 0) \<and>
   pinCnt (bufDescTable (after (readPage 0 7 1 ex_pinned)) ! 0) = 2 \<and>
   calls (after (readPage 0 7 1 ex_pinned)) = [ReadPageCall 7 1] \<and>
   hashTable ex_pinned (Some 7, 2) = None \<and>
   map_option fst (allocBuf 0 ex_pinned) = Some (Inr 1) \<and>
   fst (File_readPage 7 2 (after (allocBuf 0 ex_pinned))) = Inr \<lparr>page_number = 2, data = ''x''\<rparr> \<and>
   map_option fst (readPage 0 7 2 ex_pinned) = Some (Inr 1) \<and>
   bufPool (after (readPage 0 7 2 ex_pinned)) ! 1 = \<lparr>page_number = 2, data = ''x''\<rparr> \<and>
   valid (bufDescTable (after (readPage 0 7 2 ex_pinned)) ! 1) \<and>
   pinCnt (bufDescTable (after (readPage 0 7 2 ex_pinned)) ! 1) = 1 \<and>
   \<not> dirty (bufDescTable (after (readPage 0 7 2 ex_pinned)) ! 1) \<and>
   refbit (bufDescTable (after (readPage 0 7 2 ex_pinned)) ! 1) \<and>
   calls (after (readPage 0 7 2 ex_pinned)) = [ReadPageCall 7 1, ReadPageCall 7 2]"
proof -
  let ?s1 = "after (allocBuf 0 ex_pinned)"
  let ?pg = "\<lparr>page_number = 2, data = ''x''\<rparr>"
  have g: "good 0 ex_pinned" by (rule reachable_good [OF ex_pinned_reachable])
  have h: "hashTable ex_pinned (Some 7, 1) = Some 0" "pinCnt (bufDescTable ex_pinned ! 0) = 1"
    by code_simp+
  have c: "calls ex_pinned = [ReadPageCall 7 1]" "calls ?s1 = [ReadPageCall 7 1]" by code_simp+
  have k: "hashTable ex_pinned (Some 7, 2) = None" by code_simp
  have fa: "fst (File_readPage 7 2 ?s1) = Inr ?pg" by code_simp
  have "snd (File_readPage 7 2 ?s1) = ?s1\<lparr>calls := calls ?s1 @ [ReadPageCall 7 2]\<rparr>"
    by (simp add: File_readPage_def Let_def split: option.splits)
  with fa have fr: "File_readPage 7 2 ?s1 = (Inr ?pg, ?s1\<lparr>calls := calls ?s1 @ [ReadPageCall 7 2]\<rparr>)"
    by (metis prod.collapse)
  note t = readPage_hit_and_miss [OF g, of 7]
  have b: "- 2147483648 \<le> pinCnt (bufDescTable ex_pinned ! 0)"
    "pinCnt (bufDescTable ex_pinned ! 0) < 2147483647"
    unfolding h(2) by simp_all
  from t [of 1] h(1) b
  have w1: "map_option fst (readPage 0 7 1 ex_pinned) = Some (Inr 0)"
    and w0: "refbit (bufDescTable (after (readPage 0 7 1 ex_pinned)) ! 0)"
    and hit: "pinCnt (bufDescTable (after (readPage 0 7 1 ex_pinned)) ! 0) =
       pinCnt (bufDescTable ex_pinned ! 0) + 1"
      "calls (after (readPage 0 7 1 ex_pinned)) = calls ex_pinned"
    by blast+
  have w2: "pinCnt (bufDescTable (after (readPage 0 7 1 ex_pinned)) ! 0) = 2"
    unfolding hit(1) h(2) by simp
  have w3: "calls (after (readPage 0 7 1 ex_pinned)) = [ReadPageCall 7 1]"
    by (simp only: hit(2) c(1))
  from t [of 2] k ex_pinned_allocBuf fr
  obtain s' where m: "readPage 0 7 2 ex_pinned = Some (Inr 1, s')"
    "calls s' = calls ?s1 @ [ReadPageCall 7 2]" "bufPool s' ! 1 = ?pg"
    "valid (bufDescTable s' ! 1)" "pinCnt (bufDescTable s' ! 1) = 1"
    "\<not> dirty (bufDescTable s' ! 1)" "refbit (bufDescTable s' ! 1)"
    by blast
  have af: "after (readPage 0 7 2 ex_pinned) = s'"
    by (simp only: m(1) after_def option.sel snd_conv)
  have w4: "map_option fst (readPage 0 7 2 ex_pinned) = Some (Inr 1)"
    by (simp only: m(1) option.map fst_conv)
  have w5: "calls s' = [ReadPageCall 7 1, ReadPageCall 7 2]"
    unfolding m(2) c(2) by simp
  show ?thesis
    unfolding af
    by (intro conjI) (fact g h b k fa w0 w1 w2 w3 w4 w5 m ex_pinned_allocBuf_fst)+
qed


text \<open>
  Claim C8. In a state that satisfies the invariant, when \<open>readPage\<close> misses, \<open>allocBuf\<close>
  supplies frame \<open>fr\<close> and \<open>file.readPage\<close> then raises \<open>e\<close>, \<open>readPage\<close> raises \<open>e\<close>,
  and in the state it leaves frame \<open>fr\<close> is invalid, the directory has no entry for
  (file, pageNo), and no directory entry maps to \<open>fr\<close>.
\<close>

theorem readPage_file_failure:
  assumes g: "good INV s" and k: "hashTable s (Some f, p) = None"
    and a: "allocBuf INV s = Some (Inr fr, s1)"
    and e: "File_readPage f p s1 = (Inl e, s2)"
  shows "readPage INV f p s = Some (Inl e, s2) \<and>
         fr < numBufs s2 \<and> \<not> valid (bufDescTable s2 ! fr) \<and>
         hashTable s2 (Some f, p) = None \<and> (\<forall>k. hashTable s2 k \<noteq> Some fr)"
proof -
  from allocBuf_good [OF g] a
  have s1: "good INV s1" "numBufs s1 = numBufs s" "fr < numBufs s" "\<not> valid (bufDescTable s1 ! fr)"
    "hashTable s1 (Some f, p) = None"
    using k by auto
  have s2: "s2 = s1\<lparr>calls := calls s1 @ [ReadPageCall f p]\<rparr>"
    using e by (auto simp: File_readPage_def Let_def split: option.splits)
  have rp: "readPage INV f p s = Some (Inl e, s2)"
    using k a e by (simp add: readPage_def BufHashTbl_lookup_def)
  have "hashTable s2 k' \<noteq> Some fr" for k'
    using good_hash [OF s1(1), of k' fr] s1(4) s2 by auto
  then show ?thesis using rp s1 s2 by simp
qed


theorem readPage_file_failure_witness:
  "good 0 ex_pinned \<and> hashTable ex_pinned (Some 7, 9) = None \<and>
   map_option fst (allocBuf 0 ex_pinned) = Some (Inr 1) \<and>
   fst (File_readPage 7 9 (after (allocBuf 0 ex_pinned))) = Inl InvalidPageException \<and>
   map_option fst (readPage 0 7 9 ex_pinned) = Some (Inl InvalidPageException) \<and>
   \<not> valid (bufDescTable (after (readPage 0 7 9 ex_pinned)) ! 1) \<and>
   hashTable (after (readPage 0 7 9 ex_pinned)) (Some 7, 9) = None \<and>
   hashTable (after (readPage 0 7 9 ex_pinned)) (Some 7, 1) \<noteq> Some 1"
proof -
  let ?s1 = "after (allocBuf 0 ex_pinned)"
  let ?s2 = "snd (File_readPage 7 9 ?s1)"
  have g: "good 0 ex_pinned" by (rule reachable_good [OF ex_pinned_reachable])
  have k: "hashTable ex_pinned (Some 7, 9) = None" by code_simp
  have fa: "fst (File_readPage 7 9 ?s1) = Inl InvalidPageException" by code_simp
  then have e: "File_readPage 7 9 ?s1 = (Inl InvalidPageException, ?s2)"
    by (metis prod.collapse)
  from readPage_file_failure [OF g k ex_pinned_allocBuf e]
  have t: "readPage 0 7 9 ex_pinned = Some (Inl InvalidPageException, ?s2)"
    "\<not> valid (bufDescTable ?s2 ! 1)" "hashTable ?s2 (Some 7, 9) = None"
    "hashTable ?s2 (Some 7, 1) \<noteq> Some 1"
    by blast+
  have af: "after (readPage 0 7 9 ex_pinned) = ?s2"
    by (simp only: t(1) after_def option.sel snd_conv)
  have w: "map_option fst (readPage 0 7 9 ex_pinned) = Some (Inl InvalidPageException)"
    by (simp only: t(1) option.map fst_conv)
  show ?thesis
    unfolding af
    by (intro conjI) (fact g k fa w t ex_pinned_allocBuf_fst)+
qed

section \<open>\<open>flushFile\<close>\<close>

lemma flush_frame_Inr:
  assumes ff: "flush_frame INV i s = (Inr u, t)" and i: "i < length (bufDescTable s)"
  shows "bufDescTable t = (bufDescTable s)[i := BufDesc_Clear INV (bufDescTable s ! i)] \<and>
         hashTable t = (hashTable s)(key_of (bufDescTable s ! i) := None) \<and>
         bufPool t = bufPool s \<and> numBufs t = numBufs s \<and>
         calls t = calls s @ (if dirty (bufDescTable s ! i)
                              then [WritePageCall (the (file_ptr (bufDescTable s ! i))) (bufPool s ! i)]
                              else []) \<and>
         (\<forall>h. filename (files t h) = filename (files s h))"
proof (cases "dirty (bufDescTable s ! i)")
  case True
  then show ?thesis using ff i
    by (auto simp: flush_frame_def Let_def BufHashTbl_remove_def key_of_def BufDesc_Clear_def
          split: if_splits option.splits)
next
  case False
  then show ?thesis using ff i
    by (auto simp: flush_frame_def Let_def BufHashTbl_remove_def key_of_def BufDesc_Clear_def
          split: if_splits option.splits)
qed

lemma flushFile_loop_Inr:
  assumes "flushFile_loop INV fp js s = (Inr u, s')" "distinct js"
    "\<forall>j\<in>set js. j < length (bufDescTable s)"
  shows "bufDescTable s' =
           map (\<lambda>i. if i \<in> set js \<and> file_ptr (bufDescTable s ! i) = fp
                    then BufDesc_Clear INV (bufDescTable s ! i) else bufDescTable s ! i)
               [0..<length (bufDescTable s)] \<and>
         bufPool s' = bufPool s \<and> numBufs s' = numBufs s \<and>
         calls s' = calls s @ map (\<lambda>i. WritePageCall (the fp) (bufPool s ! i))
                                (filter (\<lambda>i. file_ptr (bufDescTable s ! i) = fp \<and>
                                              dirty (bufDescTable s ! i)) js) \<and>
         (\<forall>k. hashTable s' k =
                (if \<exists>i\<in>set js. file_ptr (bufDescTable s ! i) = fp \<and> key_of (bufDescTable s ! i) = k
                 then None else hashTable s k)) \<and>
         (\<forall>h. filename (files s' h) = filename (files s h))"
  using assms
proof (induction js arbitrary: s)
  case Nil
  then show ?case by (simp add: map_nth)
next
  case (Cons i js)
  show ?case
  proof (cases "file_ptr (bufDescTable s ! i) = fp")
    case False
    then have "flushFile_loop INV fp js s = (Inr u, s')" using Cons.prems(1) by simp
    from Cons.IH [OF this] Cons.prems(2,3) False show ?thesis by auto
  next
    case True
    obtain r t where ff: "flush_frame INV i s = (r, t)" by (cases "flush_frame INV i s")
    obtain u' where r: "r = Inr u'" using Cons.prems(1) True ff by (cases r) auto
    have i: "i < length (bufDescTable s)" using Cons.prems(3) by simp
    note t = flush_frame_Inr [OF ff [unfolded r] i]
    from t have t_pool: "bufPool t = bufPool s" and t_num: "numBufs t = numBufs s"
      and t_hash: "hashTable t = (hashTable s)(key_of (bufDescTable s ! i) := None)"
      and t_calls: "calls t = calls s @ (if dirty (bufDescTable s ! i)
                              then [WritePageCall (the (file_ptr (bufDescTable s ! i))) (bufPool s ! i)]
                              else [])"
      and t_name: "\<forall>h. filename (files t h) = filename (files s h)"
      by simp_all
    have rest: "flushFile_loop INV fp js t = (Inr u, s')"
      using Cons.prems(1) True ff r by simp
    have same: "bufDescTable t ! j = bufDescTable s ! j" if "j \<in> set js" for j
    proof -
      have "i \<noteq> j" using that Cons.prems(2) by auto
      then show ?thesis using t by simp
    qed
    have len: "length (bufDescTable t) = length (bufDescTable s)" using t by simp
    from Cons.IH [OF rest] Cons.prems(2,3) len
    have ih: "bufDescTable s' =
           map (\<lambda>i. if i \<in> set js \<and> file_ptr (bufDescTable t ! i) = fp
                    then BufDesc_Clear INV (bufDescTable t ! i) else bufDescTable t ! i)
               [0..<length (bufDescTable t)]"
      "bufPool s' = bufPool t" "numBufs s' = numBufs t"
      "calls s' = calls t @ map (\<lambda>i. WritePageCall (the fp) (bufPool t ! i))
                                (filter (\<lambda>i. file_ptr (bufDescTable t ! i) = fp \<and>
                                              dirty (bufDescTable t ! i)) js)"
      "\<forall>k. hashTable s' k =
                (if \<exists>i\<in>set js. file_ptr (bufDescTable t ! i) = fp \<and> key_of (bufDescTable t ! i) = k
                 then None else hashTable t k)"
      "\<forall>h. filename (files s' h) = filename (files t h)"
      by simp_all
    have a: "bufDescTable s' =
           map (\<lambda>j. if j \<in> set (i # js) \<and> file_ptr (bufDescTable s ! j) = fp
                    then BufDesc_Clear INV (bufDescTable s ! j) else bufDescTable s ! j)
               [0..<length (bufDescTable s)]"
      unfolding ih(1) len
    proof (rule map_cong [OF refl])
      fix j assume "j \<in> set [0..<length (bufDescTable s)]"
      then have j: "j < length (bufDescTable s)" by simp
      show "(if j \<in> set js \<and> file_ptr (bufDescTable t ! j) = fp
             then BufDesc_Clear INV (bufDescTable t ! j) else bufDescTable t ! j) =
            (if j \<in> set (i # js) \<and> file_ptr (bufDescTable s ! j) = fp
             then BufDesc_Clear INV (bufDescTable s ! j) else bufDescTable s ! j)"
      proof (cases "j = i")
        case True
        then show ?thesis using Cons.prems(2) \<open>file_ptr (bufDescTable s ! i) = fp\<close> t i by simp
      next
        case False
        then have "bufDescTable t ! j = bufDescTable s ! j" using t by simp
        then show ?thesis using False by simp
      qed
    qed
    have fl: "filter (\<lambda>i. file_ptr (bufDescTable t ! i) = fp \<and> dirty (bufDescTable t ! i)) js =
              filter (\<lambda>i. file_ptr (bufDescTable s ! i) = fp \<and> dirty (bufDescTable s ! i)) js"
      by (rule filter_cong [OF refl]) (simp add: same)
    have b: "calls s' = calls s @ map (\<lambda>i. WritePageCall (the fp) (bufPool s ! i))
                                (filter (\<lambda>i. file_ptr (bufDescTable s ! i) = fp \<and>
                                              dirty (bufDescTable s ! i)) (i # js))"
      unfolding ih(4) fl t_pool t_calls using True by simp
    have c: "hashTable s' k =
                (if \<exists>j\<in>set (i # js). file_ptr (bufDescTable s ! j) = fp \<and> key_of (bufDescTable s ! j) = k
                 then None else hashTable s k)" for k
    proof -
      have e: "(\<exists>j\<in>set js. file_ptr (bufDescTable t ! j) = fp \<and> key_of (bufDescTable t ! j) = k) =
            (\<exists>j\<in>set js. file_ptr (bufDescTable s ! j) = fp \<and> key_of (bufDescTable s ! j) = k)"
        by (rule bex_cong [OF refl]) (simp add: same)
      have h: "hashTable s' k =
            (if \<exists>j\<in>set js. file_ptr (bufDescTable s ! j) = fp \<and> key_of (bufDescTable s ! j) = k
             then None else ((hashTable s)(key_of (bufDescTable s ! i) := None)) k)"
        using ih(5) [rule_format, of k] unfolding e t_hash .
      show ?thesis
      proof (cases "k = key_of (bufDescTable s ! i)")
        case True
        then show ?thesis using h \<open>file_ptr (bufDescTable s ! i) = fp\<close> by simp
      next
        case False
        then show ?thesis using h by auto
      qed
    qed
    show ?thesis using a b c ih(2,3,6) t_pool t_num t_name by simp
  qed
qed


lemma good_owned_valid:
  assumes g: "good INV s" and i: "i < numBufs s" and o: "file_ptr (bufDescTable s ! i) = Some f"
  shows "valid (bufDescTable s ! i)"
proof (rule ccontr)
  assume "\<not> valid (bufDescTable s ! i)"
  from good_invalid [OF g i this]
  have "file_ptr (bufDescTable s ! i) = file_ptr (BufDesc_Clear INV (bufDescTable s ! i))"
    by simp
  then show False using o by (simp add: BufDesc_Clear_def)
qed

lemma flushFile_loop_ok:
  assumes "good INV s" "distinct js" "\<forall>j\<in>set js. j < numBufs s"
    "\<forall>j\<in>set js. file_ptr (bufDescTable s ! j) = Some f \<longrightarrow>
       \<not> pinCnt (bufDescTable s ! j) > 0 \<and> pageNo (bufDescTable s ! j) \<noteq> INV"
  shows "\<exists>s'. flushFile_loop INV (Some f) js s = (Inr (), s') \<and> good INV s'"
  using assms
proof (induction js arbitrary: s)
  case Nil
  then show ?case by simp
next
  case (Cons i js)
  have i: "i < numBufs s" using Cons.prems(3) by simp
  show ?case
  proof (cases "file_ptr (bufDescTable s ! i) = Some f")
    case False
    from Cons.IH [OF Cons.prems(1)] Cons.prems(2,3,4) False show ?thesis by simp
  next
    case True
    have v: "valid (bufDescTable s ! i)" by (rule good_owned_valid [OF Cons.prems(1) i True])
    have ok: "\<not> pinCnt (bufDescTable s ! i) > 0" "pageNo (bufDescTable s ! i) \<noteq> INV"
      using Cons.prems(4) True by simp_all
    from flush_frame_ok [OF Cons.prems(1) i v ok]
    obtain t where t: "flush_frame INV i s = (Inr (), t)" "good INV t" "numBufs t = numBufs s"
      "bufDescTable t = (bufDescTable s)[i := BufDesc_Clear INV (bufDescTable s ! i)]"
      by blast
    have same: "bufDescTable t ! j = bufDescTable s ! j" if "j \<in> set js" for j
    proof -
      have "i \<noteq> j" using that Cons.prems(2) by auto
      then show ?thesis using t(4) by simp
    qed
    have "\<exists>s'. flushFile_loop INV (Some f) js t = (Inr (), s') \<and> good INV s'"
    proof (rule Cons.IH [OF t(2)])
      show "distinct js" using Cons.prems(2) by simp
      show "\<forall>j\<in>set js. j < numBufs t" using Cons.prems(3) t(3) by simp
      show "\<forall>j\<in>set js. file_ptr (bufDescTable t ! j) = Some f \<longrightarrow>
              \<not> pinCnt (bufDescTable t ! j) > 0 \<and> pageNo (bufDescTable t ! j) \<noteq> INV"
        using Cons.prems(4) same by simp
    qed
    then show ?thesis using True t(1) by simp
  qed
qed

lemma flushFile_loop_append:
  "flushFile_loop INV fp (js1 @ js2) s =
     (case flushFile_loop INV fp js1 s of
        (Inl e, s1) \<Rightarrow> (Inl e, s1)
      | (Inr u, s1) \<Rightarrow> flushFile_loop INV fp js2 s1)"
  by (induction js1 arbitrary: s) (auto split: prod.splits sum.splits)

lemma upt_split:
  assumes "i < n" shows "[0..<n] = [0..<i] @ i # [Suc i..<n]"
proof -
  have "[0..<i + (n - i)] = [0..<i] @ [i..<i + (n - i)]" by (rule upt_add_eq_append) simp
  then have "[0..<n] = [0..<i] @ [i..<n]" using assms by simp
  then show ?thesis using assms by (simp add: upt_conv_Cons)
qed


lemma flushFile_stops:
  assumes g: "good INV s" and fb: "first_unflushable INV f s i"
  shows "\<exists>s'. flushFile INV (Some f) s =
           (Inl (if pinCnt (bufDescTable s ! i) > 0
                 then PagePinnedException (filename (files s f)) (pageNo (bufDescTable s ! i)) i
                 else BadBufferException i (dirty (bufDescTable s ! i)) True
                        (refbit (bufDescTable s ! i))), s') \<and>
           flushFile_loop INV (Some f) [0..<i] s = (Inr (), s') \<and>
           valid (bufDescTable s ! i)"
proof -
  let ?d = "bufDescTable s ! i"
  from fb have i: "i < numBufs s" and o: "file_ptr ?d = Some f"
    and bad: "pinCnt ?d > 0 \<or> pageNo ?d = INV"
    and before: "\<forall>j<i. file_ptr (bufDescTable s ! j) = Some f \<longrightarrow>
        \<not> pinCnt (bufDescTable s ! j) > 0 \<and> pageNo (bufDescTable s ! j) \<noteq> INV"
    by (simp_all add: first_unflushable_def)
  note len = good_len [OF g]
  have v: "valid ?d" by (rule good_owned_valid [OF g i o])
  have "\<exists>s'. flushFile_loop INV (Some f) [0..<i] s = (Inr (), s') \<and> good INV s'"
    by (rule flushFile_loop_ok [OF g]) (use i before in auto)
  then obtain s1 where s1: "flushFile_loop INV (Some f) [0..<i] s = (Inr (), s1)" by blast
  have "\<forall>j\<in>set [0..<i]. j < length (bufDescTable s)" using i len by simp
  from flushFile_loop_Inr [OF s1 _ this]
  have tbl: "bufDescTable s1 =
           map (\<lambda>j. if j \<in> set [0..<i] \<and> file_ptr (bufDescTable s ! j) = Some f
                    then BufDesc_Clear INV (bufDescTable s ! j) else bufDescTable s ! j)
               [0..<length (bufDescTable s)]"
    and nm: "\<forall>h. filename (files s1 h) = filename (files s h)"
    by simp_all
  have d1: "bufDescTable s1 ! i = ?d" using i len by (simp add: tbl)
  have ff: "flush_frame INV i s1 =
           (Inl (if pinCnt ?d > 0
                 then PagePinnedException (filename (files s f)) (pageNo ?d) i
                 else BadBufferException i (dirty ?d) True (refbit ?d)), s1)"
    using bad o v nm by (auto simp: flush_frame_def Let_def d1)
  have "flushFile INV (Some f) s = flushFile_loop INV (Some f) ([0..<i] @ i # [Suc i..<numBufs s]) s"
    unfolding flushFile_def using upt_split [OF i] by simp
  also have "\<dots> = flushFile_loop INV (Some f) (i # [Suc i..<numBufs s]) s1"
    by (simp add: flushFile_loop_append s1)
  also have "\<dots> = (Inl (if pinCnt ?d > 0
                 then PagePinnedException (filename (files s f)) (pageNo ?d) i
                 else BadBufferException i (dirty ?d) True (refbit ?d)), s1)"
    using o by (simp add: d1 ff)
  finally show ?thesis using s1 v by blast
qed

lemma flushFile_returns:
  assumes g: "good INV s" and none: "\<And>i. \<not> first_unflushable INV f s i"
  shows "fst (flushFile INV (Some f) s) = Inr ()"
proof -
  have ok: "\<not> pinCnt (bufDescTable s ! j) > 0 \<and> pageNo (bufDescTable s ! j) \<noteq> INV"
    if "j < numBufs s" "file_ptr (bufDescTable s ! j) = Some f" for j
    using that
  proof (induction j rule: less_induct)
    case (less j)
    have "\<forall>k<j. file_ptr (bufDescTable s ! k) = Some f \<longrightarrow>
        \<not> pinCnt (bufDescTable s ! k) > 0 \<and> pageNo (bufDescTable s ! k) \<noteq> INV"
      using less.IH less.prems(1) by auto
    then show ?case using none [of j] less.prems by (auto simp: first_unflushable_def)
  qed
  have "\<exists>s'. flushFile_loop INV (Some f) [0..<numBufs s] s = (Inr (), s') \<and> good INV s'"
    by (rule flushFile_loop_ok [OF g]) (use ok in auto)
  then show ?thesis by (auto simp: flushFile_def)
qed

lemma ex_mixed_reachable: "reachable 0 ex_mixed"
proof -
  have "map_option fst (readPage 0 7 2 ex_unpinned) = Some (Inr 1)" by code_simp
  from reachable.readPage [OF ex_unpinned_reachable after_step [OF this]]
  show ?thesis by (simp add: ex_mixed_def)
qed

lemma ex_bad_reachable: "reachable 4 ex_bad"
proof -
  have "map_option fst (readPage 4 7 4 (BufMgr_new 4 2 ex_files)) = Some (Inr 0)" by code_simp
  from reachable.readPage [OF reachable.new after_step [OF this]]
  have "reachable 4 (after (readPage 4 7 4 (BufMgr_new 4 2 ex_files)))" .
  from reachable.unPinPage [OF this surjective_pairing]
  show ?thesis unfolding ex_bad_def .
qed

lemma ex_two_files_flush: "fst (flushFile 0 (Some 7) ex_two_files) = Inr ()"
  by code_simp


text \<open>
  \<open>flushFile\<close> only compares its argument with the \<open>file\<close> fields, so a null pointer is
  accepted as well: it matches the empty frames, and the first of them raises
  \<open>BadBufferException\<close> with \<open>valid = false\<close>, since line 174 does not look at
  \<open>valid\<close>. The two claims below are about a file, that is, a pointer that is not null.
\<close>

lemma flushFile_null_pointer:
  "fst (flushFile 0 None (BufMgr_new 0 1 ex_files)) = Inl (BadBufferException 0 False False False)"
  by code_simp

text \<open>
  Claim C4. In a state that satisfies the invariant, let frame \<open>i\<close> be the first frame of
  \<open>file\<close> that is pinned or carries the sentinel page number. If it is pinned,
  \<open>flushFile(file)\<close> raises \<open>PagePinnedException\<close> with the file's name, the frame's page
  number and \<open>i\<close>; otherwise it raises \<open>BadBufferException\<close> for frame \<open>i\<close>, and the
  frame is valid. In the state the exception leaves, every frame of \<open>file\<close> before \<open>i\<close>
  is cleared and has lost its directory entry, the dirty ones among them have been
  written, in scan order, and the frames from \<open>i\<close> on are as they were. Conversely, a
  \<open>BadBufferException\<close> from \<open>flushFile(file)\<close> always names a valid frame of \<open>file\<close>
  with the sentinel page number, and a \<open>PagePinnedException\<close> a pinned one.
\<close>

theorem flushFile_errors:
  assumes g: "good INV s"
  shows "(\<forall>i. first_unflushable INV f s i \<longrightarrow>
            valid (bufDescTable s ! i) \<and>
            fst (flushFile INV (Some f) s) =
              Inl (if pinCnt (bufDescTable s ! i) > 0
                   then PagePinnedException (filename (files s f)) (pageNo (bufDescTable s ! i)) i
                   else BadBufferException i (dirty (bufDescTable s ! i)) True
                          (refbit (bufDescTable s ! i))) \<and>
            (\<forall>j<i. file_ptr (bufDescTable s ! j) = Some f \<longrightarrow>
               bufDescTable (snd (flushFile INV (Some f) s)) ! j =
                 BufDesc_Clear INV (bufDescTable s ! j) \<and>
               hashTable (snd (flushFile INV (Some f) s)) (key_of (bufDescTable s ! j)) = None) \<and>
            (\<forall>j. i \<le> j \<and> j < numBufs s \<longrightarrow>
               bufDescTable (snd (flushFile INV (Some f) s)) ! j = bufDescTable s ! j) \<and>
            calls (snd (flushFile INV (Some f) s)) =
              calls s @ map (\<lambda>j. WritePageCall f (bufPool s ! j))
                          (filter (\<lambda>j. file_ptr (bufDescTable s ! j) = Some f \<and>
                                        dirty (bufDescTable s ! j)) [0..<i])) \<and>
         (\<forall>i d v r. fst (flushFile INV (Some f) s) = Inl (BadBufferException i d v r) \<longrightarrow>
            v \<and> first_unflushable INV f s i \<and> valid (bufDescTable s ! i) \<and>
            pageNo (bufDescTable s ! i) = INV) \<and>
         (\<forall>n p i. fst (flushFile INV (Some f) s) = Inl (PagePinnedException n p i) \<longrightarrow>
            first_unflushable INV f s i \<and> pinCnt (bufDescTable s ! i) > 0)"
proof -
  let ?r = "flushFile INV (Some f) s"
  let ?exn = "\<lambda>i. if pinCnt (bufDescTable s ! i) > 0
                 then PagePinnedException (filename (files s f)) (pageNo (bufDescTable s ! i)) i
                 else BadBufferException i (dirty (bufDescTable s ! i)) True
                        (refbit (bufDescTable s ! i))"
  note len = good_len [OF g]
  have fwd: "valid (bufDescTable s ! i) \<and> fst ?r = Inl (?exn i) \<and>
            (\<forall>j<i. file_ptr (bufDescTable s ! j) = Some f \<longrightarrow>
               bufDescTable (snd ?r) ! j = BufDesc_Clear INV (bufDescTable s ! j) \<and>
               hashTable (snd ?r) (key_of (bufDescTable s ! j)) = None) \<and>
            (\<forall>j. i \<le> j \<and> j < numBufs s \<longrightarrow> bufDescTable (snd ?r) ! j = bufDescTable s ! j) \<and>
            calls (snd ?r) =
              calls s @ map (\<lambda>j. WritePageCall f (bufPool s ! j))
                          (filter (\<lambda>j. file_ptr (bufDescTable s ! j) = Some f \<and>
                                        dirty (bufDescTable s ! j)) [0..<i])"
    if fb: "first_unflushable INV f s i" for i
  proof -
    from flushFile_stops [OF g fb] obtain s' where
      r: "?r = (Inl (?exn i), s')" and l: "flushFile_loop INV (Some f) [0..<i] s = (Inr (), s')"
      and v: "valid (bufDescTable s ! i)" by blast
    have i: "i < numBufs s" using fb by (simp add: first_unflushable_def)
    have "\<forall>j\<in>set [0..<i]. j < length (bufDescTable s)" using i len by simp
    from flushFile_loop_Inr [OF l _ this]
    have tbl: "bufDescTable s' =
           map (\<lambda>j. if j \<in> set [0..<i] \<and> file_ptr (bufDescTable s ! j) = Some f
                    then BufDesc_Clear INV (bufDescTable s ! j) else bufDescTable s ! j)
               [0..<length (bufDescTable s)]"
      and cl: "calls s' = calls s @ map (\<lambda>j. WritePageCall (the (Some f)) (bufPool s ! j))
                                (filter (\<lambda>j. file_ptr (bufDescTable s ! j) = Some f \<and>
                                              dirty (bufDescTable s ! j)) [0..<i])"
      and ht: "\<forall>k. hashTable s' k =
                (if \<exists>j\<in>set [0..<i]. file_ptr (bufDescTable s ! j) = Some f \<and>
                                      key_of (bufDescTable s ! j) = k
                 then None else hashTable s k)"
      by simp_all
    have a: "bufDescTable s' ! j = BufDesc_Clear INV (bufDescTable s ! j) \<and>
             hashTable s' (key_of (bufDescTable s ! j)) = None"
      if "j < i" "file_ptr (bufDescTable s ! j) = Some f" for j
    proof -
      have "\<exists>j'\<in>set [0..<i]. file_ptr (bufDescTable s ! j') = Some f \<and>
              key_of (bufDescTable s ! j') = key_of (bufDescTable s ! j)"
        using that by auto
      then have "hashTable s' (key_of (bufDescTable s ! j)) = None"
        using ht [rule_format, of "key_of (bufDescTable s ! j)"] by simp
      moreover have "bufDescTable s' ! j = BufDesc_Clear INV (bufDescTable s ! j)"
        using that i len by (simp add: tbl)
      ultimately show ?thesis by simp
    qed
    have b: "bufDescTable s' ! j = bufDescTable s ! j" if "i \<le> j" "j < numBufs s" for j
      using that len by (simp add: tbl)
    show ?thesis using r v a b cl by simp
  qed
  have bwd: "first_unflushable INV f s i \<and> e = ?exn i" if e: "fst ?r = Inl e"
    and at: "e = BadBufferException i d v r \<or> e = PagePinnedException n p i" for e i d v r n p
  proof -
    have "\<exists>i0. first_unflushable INV f s i0"
    proof (rule ccontr)
      assume "\<not> (\<exists>i0. first_unflushable INV f s i0)"
      then have "fst ?r = Inr ()" using flushFile_returns [OF g, of f] by blast
      then show False using e by simp
    qed
    then obtain i0 where i0: "first_unflushable INV f s i0" by blast
    from fwd [OF i0] e have "e = ?exn i0" by simp
    moreover from this at have "i = i0" by (auto split: if_splits)
    ultimately show ?thesis using i0 by simp
  qed
  have bb: "v \<and> first_unflushable INV f s i \<and> valid (bufDescTable s ! i) \<and>
            pageNo (bufDescTable s ! i) = INV"
    if e: "fst ?r = Inl (BadBufferException i d v r)" for i d v r
  proof -
    from bwd [OF e, of i d v r] have fb: "first_unflushable INV f s i"
      and eq: "BadBufferException i d v r = ?exn i" by simp_all
    from eq have "v" "\<not> pinCnt (bufDescTable s ! i) > 0" by (auto split: if_splits)
    then show ?thesis using fb fwd [OF fb] by (auto simp: first_unflushable_def)
  qed
  have pp: "first_unflushable INV f s i \<and> pinCnt (bufDescTable s ! i) > 0"
    if e: "fst ?r = Inl (PagePinnedException n p i)" for n p i
  proof -
    from bwd [OF e, of i _ _ _ n p] have fb: "first_unflushable INV f s i"
      and eq: "PagePinnedException n p i = ?exn i" by simp_all
    from eq have "pinCnt (bufDescTable s ! i) > 0" by (auto split: if_splits)
    then show ?thesis using fb by simp
  qed
  have 1: "\<forall>i. first_unflushable INV f s i \<longrightarrow>
            valid (bufDescTable s ! i) \<and> fst ?r = Inl (?exn i) \<and>
            (\<forall>j<i. file_ptr (bufDescTable s ! j) = Some f \<longrightarrow>
               bufDescTable (snd ?r) ! j = BufDesc_Clear INV (bufDescTable s ! j) \<and>
               hashTable (snd ?r) (key_of (bufDescTable s ! j)) = None) \<and>
            (\<forall>j. i \<le> j \<and> j < numBufs s \<longrightarrow> bufDescTable (snd ?r) ! j = bufDescTable s ! j) \<and>
            calls (snd ?r) =
              calls s @ map (\<lambda>j. WritePageCall f (bufPool s ! j))
                          (filter (\<lambda>j. file_ptr (bufDescTable s ! j) = Some f \<and>
                                        dirty (bufDescTable s ! j)) [0..<i])"
    by (intro allI impI) (rule fwd)
  have 2: "\<forall>i d v r. fst ?r = Inl (BadBufferException i d v r) \<longrightarrow>
            v \<and> first_unflushable INV f s i \<and> valid (bufDescTable s ! i) \<and>
            pageNo (bufDescTable s ! i) = INV"
    by (intro allI impI) (rule bb)
  have 3: "\<forall>n p i. fst ?r = Inl (PagePinnedException n p i) \<longrightarrow>
            first_unflushable INV f s i \<and> pinCnt (bufDescTable s ! i) > 0"
    by (intro allI impI) (rule pp)
  show ?thesis by (rule conjI [OF 1 conjI [OF 2 3]])
qed


theorem flushFile_errors_witness:
  "good 0 ex_mixed \<and> first_unflushable 0 7 ex_mixed 1 \<and>
   dirty (bufDescTable ex_mixed ! 0) \<and> pinCnt (bufDescTable ex_mixed ! 1) = 1 \<and>
   fst (flushFile 0 (Some 7) ex_mixed) = Inl (PagePinnedException ''A'' 2 1) \<and>
   \<not> valid (bufDescTable (snd (flushFile 0 (Some 7) ex_mixed)) ! 0) \<and>
   hashTable (snd (flushFile 0 (Some 7) ex_mixed)) (Some 7, 1) = None \<and>
   calls (snd (flushFile 0 (Some 7) ex_mixed)) =
     [ReadPageCall 7 1, ReadPageCall 7 2, WritePageCall 7 \<lparr>page_number = 1, data = ''x''\<rparr>] \<and>
   good 4 ex_bad \<and> first_unflushable 4 7 ex_bad 0 \<and>
   fst (flushFile 4 (Some 7) ex_bad) = Inl (BadBufferException 0 False True True) \<and>
   valid (bufDescTable ex_bad ! 0) \<and> pageNo (bufDescTable ex_bad ! 0) = 4"
proof -
  have g: "good 0 ex_mixed" by (rule reachable_good [OF ex_mixed_reachable])
  have g': "good 4 ex_bad" by (rule reachable_good [OF ex_bad_reachable])
  have fb: "first_unflushable 0 7 ex_mixed 1" by code_simp
  have fb': "first_unflushable 4 7 ex_bad 0" by code_simp
  have e: "dirty (bufDescTable ex_mixed ! 0)" "pinCnt (bufDescTable ex_mixed ! 1) = 1"
    "file_ptr (bufDescTable ex_mixed ! 0) = Some 7" "key_of (bufDescTable ex_mixed ! 0) = (Some 7, 1)"
    "filename (files ex_mixed 7) = ''A''" "pageNo (bufDescTable ex_mixed ! 1) = 2"
    "calls ex_mixed = [ReadPageCall 7 1, ReadPageCall 7 2]"
    "bufPool ex_mixed ! 0 = \<lparr>page_number = 1, data = ''x''\<rparr>"
    by code_simp+
  have e': "pinCnt (bufDescTable ex_bad ! 0) = 0" "\<not> dirty (bufDescTable ex_bad ! 0)"
    "refbit (bufDescTable ex_bad ! 0)" by code_simp+
  note t = flushFile_errors [OF g, of 7, THEN conjunct1, rule_format, OF fb]
  from t have w1: "fst (flushFile 0 (Some 7) ex_mixed) = Inl (PagePinnedException ''A'' 2 1)"
    using e by simp
  from t e(3) have "bufDescTable (snd (flushFile 0 (Some 7) ex_mixed)) ! 0 =
      BufDesc_Clear 0 (bufDescTable ex_mixed ! 0)"
    "hashTable (snd (flushFile 0 (Some 7) ex_mixed)) (key_of (bufDescTable ex_mixed ! 0)) = None"
    by simp_all
  then have w2: "\<not> valid (bufDescTable (snd (flushFile 0 (Some 7) ex_mixed)) ! 0)"
    and w3: "hashTable (snd (flushFile 0 (Some 7) ex_mixed)) (Some 7, 1) = None"
    using e(4) by (simp_all add: BufDesc_Clear_def)
  from t have "calls (snd (flushFile 0 (Some 7) ex_mixed)) =
      calls ex_mixed @ map (\<lambda>j. WritePageCall 7 (bufPool ex_mixed ! j))
        (filter (\<lambda>j. file_ptr (bufDescTable ex_mixed ! j) = Some 7 \<and>
                       dirty (bufDescTable ex_mixed ! j)) [0..<1])"
    by simp
  then have w4: "calls (snd (flushFile 0 (Some 7) ex_mixed)) =
     [ReadPageCall 7 1, ReadPageCall 7 2, WritePageCall 7 \<lparr>page_number = 1, data = ''x''\<rparr>]"
    using e by simp
  note t' = flushFile_errors [OF g', of 7, THEN conjunct1, rule_format, OF fb']
  from t' have w5: "fst (flushFile 4 (Some 7) ex_bad) = Inl (BadBufferException 0 False True True)"
    using e' by simp
  from flushFile_errors [OF g', of 7, THEN conjunct2, THEN conjunct1, rule_format, OF w5]
  have w6: "valid (bufDescTable ex_bad ! 0)" "pageNo (bufDescTable ex_bad ! 0) = 4" by simp_all
  show ?thesis
    by (intro conjI) (fact g g' fb fb' e w1 w2 w3 w4 w5 w6)+
qed


text \<open>
  Claim C5. When \<open>flushFile(file)\<close> returns normally, no frame belongs to \<open>file\<close>; every
  frame that did is cleared (so neither valid nor dirty) and its directory entry is
  gone; the calls made on files are exactly one \<open>writePage\<close> on \<open>file\<close> for each of its
  frames that was dirty, with the contents of the frame's pool slot; the frames of other
  owners, their directory entries and the pool are unchanged.
\<close>

theorem flushFile_normal_return:
  assumes w: "wf s" and r: "flushFile INV (Some f) s = (Inr u, s')"
  shows "(\<forall>i<numBufs s. file_ptr (bufDescTable s' ! i) \<noteq> Some f) \<and>
         (\<forall>i<numBufs s. file_ptr (bufDescTable s ! i) = Some f \<longrightarrow>
            bufDescTable s' ! i = BufDesc_Clear INV (bufDescTable s ! i) \<and>
            \<not> valid (bufDescTable s' ! i) \<and> \<not> dirty (bufDescTable s' ! i) \<and>
            hashTable s' (key_of (bufDescTable s ! i)) = None) \<and>
         (\<forall>i<numBufs s. file_ptr (bufDescTable s ! i) \<noteq> Some f \<longrightarrow>
            bufDescTable s' ! i = bufDescTable s ! i) \<and>
         (\<forall>k. (\<forall>i<numBufs s. file_ptr (bufDescTable s ! i) = Some f \<longrightarrow>
                  key_of (bufDescTable s ! i) \<noteq> k) \<longrightarrow>
              hashTable s' k = hashTable s k) \<and>
         calls s' = calls s @ map (\<lambda>i. WritePageCall f (bufPool s ! i))
                              (filter (\<lambda>i. file_ptr (bufDescTable s ! i) = Some f \<and>
                                            dirty (bufDescTable s ! i)) [0..<numBufs s]) \<and>
         bufPool s' = bufPool s \<and> numBufs s' = numBufs s \<and>
         length (bufDescTable s') = numBufs s"
proof -
  have len: "length (bufDescTable s) = numBufs s" using w by (simp add: wf_def)
  have l: "flushFile_loop INV (Some f) [0..<numBufs s] s = (Inr u, s')"
    using r by (simp add: flushFile_def)
  have "\<forall>j\<in>set [0..<numBufs s]. j < length (bufDescTable s)" using len by simp
  from flushFile_loop_Inr [OF l _ this]
  have tbl: "bufDescTable s' =
           map (\<lambda>j. if j \<in> set [0..<numBufs s] \<and> file_ptr (bufDescTable s ! j) = Some f
                    then BufDesc_Clear INV (bufDescTable s ! j) else bufDescTable s ! j)
               [0..<length (bufDescTable s)]"
    and cl: "calls s' = calls s @ map (\<lambda>j. WritePageCall (the (Some f)) (bufPool s ! j))
                                (filter (\<lambda>j. file_ptr (bufDescTable s ! j) = Some f \<and>
                                              dirty (bufDescTable s ! j)) [0..<numBufs s])"
    and ht: "\<forall>k. hashTable s' k =
                (if \<exists>j\<in>set [0..<numBufs s]. file_ptr (bufDescTable s ! j) = Some f \<and>
                                      key_of (bufDescTable s ! j) = k
                 then None else hashTable s k)"
    and rest: "bufPool s' = bufPool s" "numBufs s' = numBufs s"
    by simp_all
  have nth: "bufDescTable s' ! i =
      (if file_ptr (bufDescTable s ! i) = Some f
       then BufDesc_Clear INV (bufDescTable s ! i) else bufDescTable s ! i)"
    if "i < numBufs s" for i
    using that len by (simp add: tbl)
  have 1: "\<forall>i<numBufs s. file_ptr (bufDescTable s' ! i) \<noteq> Some f"
    by (simp add: nth BufDesc_Clear_def)
  have 2: "\<forall>i<numBufs s. file_ptr (bufDescTable s ! i) = Some f \<longrightarrow>
            bufDescTable s' ! i = BufDesc_Clear INV (bufDescTable s ! i) \<and>
            \<not> valid (bufDescTable s' ! i) \<and> \<not> dirty (bufDescTable s' ! i) \<and>
            hashTable s' (key_of (bufDescTable s ! i)) = None"
  proof (intro allI impI)
    fix i assume i: "i < numBufs s" and o: "file_ptr (bufDescTable s ! i) = Some f"
    have "\<exists>j\<in>set [0..<numBufs s]. file_ptr (bufDescTable s ! j) = Some f \<and>
            key_of (bufDescTable s ! j) = key_of (bufDescTable s ! i)"
      using i o by auto
    then have "hashTable s' (key_of (bufDescTable s ! i)) = None"
      using ht [rule_format, of "key_of (bufDescTable s ! i)"] by simp
    then show "bufDescTable s' ! i = BufDesc_Clear INV (bufDescTable s ! i) \<and>
            \<not> valid (bufDescTable s' ! i) \<and> \<not> dirty (bufDescTable s' ! i) \<and>
            hashTable s' (key_of (bufDescTable s ! i)) = None"
      using i o by (simp add: nth BufDesc_Clear_def)
  qed
  have 3: "\<forall>i<numBufs s. file_ptr (bufDescTable s ! i) \<noteq> Some f \<longrightarrow>
            bufDescTable s' ! i = bufDescTable s ! i"
    by (simp add: nth)
  have 4: "\<forall>k. (\<forall>i<numBufs s. file_ptr (bufDescTable s ! i) = Some f \<longrightarrow>
                  key_of (bufDescTable s ! i) \<noteq> k) \<longrightarrow>
              hashTable s' k = hashTable s k"
  proof (intro allI impI)
    fix k assume "\<forall>i<numBufs s. file_ptr (bufDescTable s ! i) = Some f \<longrightarrow>
                  key_of (bufDescTable s ! i) \<noteq> k"
    then have ne: "\<not> (\<exists>j\<in>set [0..<numBufs s]. file_ptr (bufDescTable s ! j) = Some f \<and>
                                      key_of (bufDescTable s ! j) = k)"
      by auto
    show "hashTable s' k = hashTable s k"
      unfolding ht [rule_format, of k] by (rule if_not_P [OF ne])
  qed
  have 5: "calls s' = calls s @ map (\<lambda>i. WritePageCall f (bufPool s ! i))
                              (filter (\<lambda>i. file_ptr (bufDescTable s ! i) = Some f \<and>
                                            dirty (bufDescTable s ! i)) [0..<numBufs s])"
    using cl by simp
  have 6: "length (bufDescTable s') = numBufs s" using len by (simp add: tbl)
  show ?thesis
    by (intro conjI) (fact 1 2 3 4 5 6 rest)+
qed

theorem flushFile_normal_return_witness:
  "wf ex_two_files \<and> fst (flushFile 0 (Some 7) ex_two_files) = Inr () \<and>
   file_ptr (bufDescTable ex_two_files ! 0) = Some 7 \<and> dirty (bufDescTable ex_two_files ! 0) \<and>
   file_ptr (bufDescTable ex_two_files ! 1) = Some 8 \<and>
   \<not> valid (bufDescTable (snd (flushFile 0 (Some 7) ex_two_files)) ! 0) \<and>
   file_ptr (bufDescTable (snd (flushFile 0 (Some 7) ex_two_files)) ! 0) \<noteq> Some 7 \<and>
   hashTable (snd (flushFile 0 (Some 7) ex_two_files)) (Some 7, 1) = None \<and>
   bufDescTable (snd (flushFile 0 (Some 7) ex_two_files)) ! 1 = bufDescTable ex_two_files ! 1 \<and>
   calls (snd (flushFile 0 (Some 7) ex_two_files)) =
     [ReadPageCall 7 1, ReadPageCall 8 2, WritePageCall 7 \<lparr>page_number = 1, data = ''x''\<rparr>]"
proof -
  let ?s' = "snd (flushFile 0 (Some 7) ex_two_files)"
  have w: "wf ex_two_files" by code_simp
  have r: "flushFile 0 (Some 7) ex_two_files = (Inr (), ?s')"
    using ex_two_files_flush by (metis prod.collapse)
  have e: "file_ptr (bufDescTable ex_two_files ! 0) = Some 7" "dirty (bufDescTable ex_two_files ! 0)"
    "file_ptr (bufDescTable ex_two_files ! 1) = Some 8" "numBufs ex_two_files = 2"
    "key_of (bufDescTable ex_two_files ! 0) = (Some 7, 1)"
    "calls ex_two_files = [ReadPageCall 7 1, ReadPageCall 8 2]"
    "bufPool ex_two_files ! 0 = \<lparr>page_number = 1, data = ''x''\<rparr>"
    by code_simp+
  note t = flushFile_normal_return [OF w r]
  note t1 = t [THEN conjunct1, rule_format]
    and t2 = t [THEN conjunct2, THEN conjunct1, rule_format]
    and t3 = t [THEN conjunct2, THEN conjunct2, THEN conjunct1, rule_format]
    and t5 = t [THEN conjunct2, THEN conjunct2, THEN conjunct2, THEN conjunct2, THEN conjunct1]
  have n: "0 < numBufs ex_two_files" "1 < numBufs ex_two_files" using e(4) by simp_all
  have ne: "file_ptr (bufDescTable ex_two_files ! 1) \<noteq> Some 7" using e(3) by simp
  from t2 [OF n(1) e(1)] have w1: "\<not> valid (bufDescTable ?s' ! 0)"
    and "hashTable ?s' (key_of (bufDescTable ex_two_files ! 0)) = None"
    by blast+
  then have w2: "hashTable ?s' (Some 7, 1) = None" using e(5) by simp
  have w1': "file_ptr (bufDescTable ?s' ! 0) \<noteq> Some 7" by (rule t1 [OF n(1)])
  have w3: "bufDescTable ?s' ! 1 = bufDescTable ex_two_files ! 1" by (rule t3 [OF n(2) ne])
  have w4: "calls ?s' =
     [ReadPageCall 7 1, ReadPageCall 8 2, WritePageCall 7 \<lparr>page_number = 1, data = ''x''\<rparr>]"
    unfolding t5 using e by (simp add: upt_rec)
  show ?thesis
    by (intro conjI) (fact w ex_two_files_flush e w1 w1' w2 w3 w4)+
qed

end
